theory Spec2Isabelle
  imports Main "HOL-Library.Word" "HOL-Library.Char_ord" "HOL-Library.List_Lexorder"
    "HOL-Library.AList"
    "HOL-Library.Multiset"
begin

section \<open>Data model (types.go)\<close>

text \<open>
  The structs of \<^verbatim>\<open>types.go\<close> as records. Several Go structs share field names
  (\<^verbatim>\<open>Key\<close>, \<^verbatim>\<open>Value\<close>, \<^verbatim>\<open>KV\<close>, \<^verbatim>\<open>Flags\<close>); HOL field names are global, so
  all but the first use get a short prefix. Go strings are byte sequences and so are HOL
  strings. Lengths and counters are Go \<^verbatim>\<open>int\<close>s that only ever hold \<^verbatim>\<open>len\<close> values or
  counts of loop rounds, hence \<open>nat\<close> here.
\<close>

record KVPair =
  Key :: string
  Value :: string

record TxnKVOp =
  Verb :: string
  OpKey :: string
  OpValue :: string
  Flags :: "64 word"

record TxnOp =
  KV :: "TxnKVOp option"

record KVData =
  LockIndex :: "64 word"
  DataKey :: string
  DataFlags :: "64 word"
  DataValue :: string
  CreateIndex :: "64 word"
  ModifyIndex :: "64 word"

record TxnResult =
  ResKV :: "KVData option"

record TxnError =
  OpIndex :: int
  What :: string

record TxnResponse =
  TxnResults :: "TxnResult list"
  Errors :: "TxnError list"

record FileSource =
  Filename :: string
  FileValue :: string

record DuplicateInfo =
  DupKey :: string
  Files :: "FileSource list"

section \<open>Batch planning (createTransactionOps, chunkOps)\<close>

definition MaxOpsPerTransaction :: int where
  "MaxOpsPerTransaction = 64"

text \<open>\<^verbatim>\<open>base64.StdEncoding.EncodeToString\<close>: three bytes become four letters of the
  standard alphabet, the last group is padded with \<^verbatim>\<open>=\<close>.\<close>

definition b64_alphabet :: string where
  "b64_alphabet =
    ''ABCDEFGHIJKLMNOPQRSTUVWXYZabcdefghijklmnopqrstuvwxyz0123456789+/''"

definition b64_digit :: "nat \<Rightarrow> char" where
  "b64_digit n = b64_alphabet ! (n mod 64)"

fun b64_groups :: "nat list \<Rightarrow> string" where
  "b64_groups [] = []"
| "b64_groups [a] =
     [b64_digit (a div 4), b64_digit ((a mod 4) * 16), CHR ''='', CHR ''='']"
| "b64_groups [a, b] =
     [b64_digit (a div 4), b64_digit ((a mod 4) * 16 + b div 16),
      b64_digit ((b mod 16) * 4), CHR ''='']"
| "b64_groups (a # b # c # rest) =
     [b64_digit (a div 4), b64_digit ((a mod 4) * 16 + b div 16),
      b64_digit ((b mod 16) * 4 + c div 64), b64_digit (c mod 64)] @ b64_groups rest"

definition encodeValue :: "string \<Rightarrow> string" where
  "encodeValue v = b64_groups (map of_char v)"

definition createTransactionOps :: "KVPair list \<Rightarrow> TxnOp list" where
  "createTransactionOps pairs =
     map (\<lambda>pair. \<lparr>KV = Some \<lparr>Verb = ''set'', OpKey = Key pair,
                                OpValue = encodeValue (Value pair), Flags = 0\<rparr>\<rparr>) pairs"

text \<open>
  A Go slice expression \<^verbatim>\<open>s[i:j]\<close> panics unless \<^verbatim>\<open>0 <= i <= j <= cap(s)\<close>. In
  \<^verbatim>\<open>chunkOps\<close> the upper index has been clamped to \<^verbatim>\<open>len(ops)\<close> before the slice is
  taken, so the bound that can fail is \<^verbatim>\<open>i <= j\<close>; the check against the length below
  stands for the one against the capacity.
\<close>

datatype go_panic = SliceBoundsOutOfRange

definition slice :: "'a list \<Rightarrow> int \<Rightarrow> int \<Rightarrow> go_panic + 'a list" where
  "slice s i j =
     (if 0 \<le> i \<and> i \<le> j \<and> j \<le> int (length s)
      then Inr (take (nat (j - i)) (drop (nat i) s))
      else Inl SliceBoundsOutOfRange)"

text \<open>
  The loop of \<^verbatim>\<open>chunkOps\<close>, with its index \<open>i\<close> and the chunks appended so far. The loop need
  not end (\<^verbatim>\<open>chunkSize = 0\<close>), so it is a partial function: \<open>None\<close> is a run that never
  returns, \<open>Some (Inl p)\<close> one that panics, \<open>Some (Inr chunks)\<close> one that returns.
  The index and the chunk size are Go \<^verbatim>\<open>int\<close>s, modelled by \<open>int\<close>; the sum
  \<open>i + chunkSize\<close> cannot wrap around for a slice that fits in memory (see \<open>chunkOps64\<close>
  below).
\<close>

partial_function (option) chunkOps_loop ::
  "'a list \<Rightarrow> int \<Rightarrow> int \<Rightarrow> 'a list list \<Rightarrow> (go_panic + 'a list list) option"
where
  "chunkOps_loop ops chunkSize i chunks =
     (if i < int (length ops) then
        (let end' = i + chunkSize;
             end' = (if end' > int (length ops) then int (length ops) else end')
         in case slice ops i end' of
              Inl p \<Rightarrow> Some (Inl p)
            | Inr c \<Rightarrow> chunkOps_loop ops chunkSize (i + chunkSize) (chunks @ [c]))
      else Some (Inr chunks))"

declare chunkOps_loop.simps [code]

definition chunkOps :: "'a list \<Rightarrow> int \<Rightarrow> (go_panic + 'a list list) option" where
  "chunkOps ops chunkSize = chunkOps_loop ops chunkSize 0 []"

text \<open>The plan in closed form: cut \<open>n\<close> elements off the front until nothing is left.\<close>

function chunks_of :: "nat \<Rightarrow> 'a list \<Rightarrow> 'a list list" where
  "chunks_of n xs = (if n = 0 \<or> xs = [] then [] else take n xs # chunks_of n (drop n xs))"
  by pat_completeness auto
termination
  by (relation "measure (\<lambda>(n, xs). length xs)") auto

declare chunks_of.simps [simp del]

text \<open>
  The same loop with the arithmetic of a 64-bit Go \<^verbatim>\<open>int\<close>: a sum wraps around in two's
  complement. It is shown below to agree with \<open>chunkOps_loop\<close> for every chunk size that
  is an \<^verbatim>\<open>int\<close> and every slice of fewer than \<open>2^62\<close> elements (a slice of operations
  that fits in memory is shorter by far).
\<close>

definition int64 :: "int \<Rightarrow> int" where
  "int64 x = (x + 2 ^ 63) mod 2 ^ 64 - 2 ^ 63"

partial_function (option) chunkOps_loop64 ::
  "'a list \<Rightarrow> int \<Rightarrow> int \<Rightarrow> 'a list list \<Rightarrow> (go_panic + 'a list list) option"
where
  "chunkOps_loop64 ops chunkSize i chunks =
     (if i < int (length ops) then
        (let end' = int64 (i + chunkSize);
             end' = (if end' > int (length ops) then int (length ops) else end')
         in case slice ops i end' of
              Inl p \<Rightarrow> Some (Inl p)
            | Inr c \<Rightarrow> chunkOps_loop64 ops chunkSize (int64 (i + chunkSize)) (chunks @ [c]))
      else Some (Inr chunks))"

declare chunkOps_loop64.simps [code]

definition chunkOps64 :: "'a list \<Rightarrow> int \<Rightarrow> (go_panic + 'a list list) option" where
  "chunkOps64 ops chunkSize = chunkOps_loop64 ops chunkSize 0 []"

section \<open>Flattening (loadYAML side: flattenKVPairs, processValue, processInterfaceMap)\<close>

text \<open>
  The dynamically typed values that \<^verbatim>\<open>yaml.Unmarshal\<close> puts behind \<^verbatim>\<open>interface{}\<close>:
  \<^verbatim>\<open>nil\<close>, strings, integers, booleans, sequences (\<^verbatim>\<open>[]interface{}\<close>) and the two map types
  that the type switch of \<^verbatim>\<open>processValue\<close> tells apart. \<open>VOther\<close> is a value of any other
  dynamic type (\<^verbatim>\<open>float64\<close>, \<^verbatim>\<open>time.Time\<close>); the program only ever formats such a value with
  \<^verbatim>\<open>%v\<close>, so it is stood for by the text that this prints.

  A Go map is an association list here. Its keys are distinct in every value that Go can
  build; the order of the list is the order in which \<^verbatim>\<open>range\<close> visits the map in the run
  at hand. Go leaves that order open, and so do the theorems: they hold for every list.
\<close>

datatype iface =
    VNil
  | VString string
  | VInt int
  | VBool bool
  | VOther string
  | VSlice "iface list"
  | VStringMap "(string \<times> iface) list"
  | VIfaceMap "(iface \<times> iface) list"

text \<open>\<^verbatim>\<open>fmt.Sprintf("%v", value)\<close>. Integers print in decimal, a slice prints its elements
  between brackets with single spaces. How \<^verbatim>\<open>fmt\<close> prints a map nested in a slice depends on
  its key sorting and is left to the parameter \<open>fmt_map\<close>.\<close>

function digits :: "nat \<Rightarrow> string" where
  "digits n = (if n < 10 then [char_of (48 + n)] else digits (n div 10) @ [char_of (48 + n mod 10)])"
  by pat_completeness auto
termination
  by (relation "measure id") auto

declare digits.simps [simp del]

definition itoa :: "int \<Rightarrow> string" where
  "itoa i = (if i < 0 then CHR ''-'' # digits (nat (- i)) else digits (nat i))"

fun join_space :: "string list \<Rightarrow> string" where
  "join_space [] = []"
| "join_space [s] = s"
| "join_space (s # t # ss) = s @ CHR '' '' # join_space (t # ss)"

fun sprintf_v :: "(iface \<Rightarrow> string) \<Rightarrow> iface \<Rightarrow> string" where
  "sprintf_v fmt_map VNil = ''<nil>''"
| "sprintf_v fmt_map (VString s) = s"
| "sprintf_v fmt_map (VInt i) = itoa i"
| "sprintf_v fmt_map (VBool b) = (if b then ''true'' else ''false'')"
| "sprintf_v fmt_map (VOther s) = s"
| "sprintf_v fmt_map (VSlice vs) = CHR ''['' # join_space (map (sprintf_v fmt_map) vs) @ '']''"
| "sprintf_v fmt_map (VStringMap m) = fmt_map (VStringMap m)"
| "sprintf_v fmt_map (VIfaceMap m) = fmt_map (VIfaceMap m)"

definition buildKey :: "string \<Rightarrow> string \<Rightarrow> string" where
  "buildKey prefix key = (if prefix = [] then key else prefix @ ''/'' @ key)"

text \<open>The loop of \<^verbatim>\<open>processInterfaceMap\<close> that fills \<^verbatim>\<open>convertedMap\<close>: an entry whose key
  is a string is stored under that string, any other entry is skipped. The new map is
  listed in the order in which its keys were stored; since the entries of \<open>m\<close> may come in
  any order, so may those of the new map.\<close>

definition convertedMap :: "(iface \<times> iface) list \<Rightarrow> (string \<times> iface) list" where
  "convertedMap m =
     foldl (\<lambda>converted (k, v). case k of VString strKey \<Rightarrow> AList.update strKey v converted
                                       | _ \<Rightarrow> converted) [] m"

text \<open>A weight for the termination of the three mutually recursive functions.\<close>

fun weight :: "iface \<Rightarrow> nat" where
  "weight (VStringMap m) = 2 + sum_list (map (\<lambda>e. weight (snd e)) m)"
| "weight (VIfaceMap m) = 4 + sum_list (map (\<lambda>e. weight (snd e)) m)"
| "weight v = 0"

lemma weight_update:
  "sum_list (map (\<lambda>e. weight (snd e)) (AList.update k v al))
     \<le> sum_list (map (\<lambda>e. weight (snd e)) al) + weight v"
  by (induction al) auto

lemma weight_convert_step:
  "sum_list (map (\<lambda>e. weight (snd e))
      (foldl (\<lambda>converted (k, v). case k of VString strKey \<Rightarrow> AList.update strKey v converted
                                        | _ \<Rightarrow> converted) acc m))
     \<le> sum_list (map (\<lambda>e. weight (snd e)) acc) + sum_list (map (\<lambda>e. weight (snd e)) m)"
proof (induction m arbitrary: acc)
  case Nil
  then show ?case by simp
next
  case (Cons e m)
  obtain k v where e: "e = (k, v)" by (cases e)
  show ?case
  proof (cases k)
    case (VString s)
    show ?thesis
      using Cons.IH[of "AList.update s v acc"] weight_update[of s v acc]
      by (simp add: e VString)
  qed (use Cons.IH[of acc] in \<open>simp_all add: e\<close>)
qed

lemma weight_convertedMap:
  "sum_list (map (\<lambda>e. weight (snd e)) (convertedMap m)) \<le> sum_list (map (\<lambda>e. weight (snd e)) m)"
  unfolding convertedMap_def using weight_convert_step[of "[]" m] by simp

lemma weight_member: "e \<in> set m \<Longrightarrow> weight (snd e) \<le> sum_list (map (\<lambda>e. weight (snd e)) m)"
  by (induction m) auto

text \<open>
  \<^verbatim>\<open>flattenKVPairs\<close> appends, for every entry of the map in the order of the visit, what
  \<^verbatim>\<open>processValue\<close> returns for it.
\<close>

function (sequential)
  flattenKVPairs :: "(iface \<Rightarrow> string) \<Rightarrow> (string \<times> iface) list \<Rightarrow> string \<Rightarrow> KVPair list"
  and processValue :: "(iface \<Rightarrow> string) \<Rightarrow> string \<Rightarrow> iface \<Rightarrow> KVPair list"
  and processInterfaceMap ::
    "(iface \<Rightarrow> string) \<Rightarrow> string \<Rightarrow> (iface \<times> iface) list \<Rightarrow> KVPair list"
where
  "flattenKVPairs fmt_map data prefix =
     concat (map (\<lambda>e. processValue fmt_map (buildKey prefix (fst e)) (snd e)) data)"
| "processValue fmt_map key (VStringMap v) = flattenKVPairs fmt_map v key"
| "processValue fmt_map key (VIfaceMap v) = processInterfaceMap fmt_map key v"
| "processValue fmt_map key value = [\<lparr>Key = key, Value = sprintf_v fmt_map value\<rparr>]"
| "processInterfaceMap fmt_map key m = flattenKVPairs fmt_map (convertedMap m) key"
  by pat_completeness auto
termination
proof (relation "measure (\<lambda>x. case x of
      Inl (fm, data, prefix) \<Rightarrow> 1 + sum_list (map (\<lambda>e. weight (snd e)) data)
    | Inr (Inl (fm, key, v)) \<Rightarrow> weight v
    | Inr (Inr (fm, key, m)) \<Rightarrow> 3 + sum_list (map (\<lambda>e. weight (snd e)) m))", goal_cases)
  case 1
  show ?case by simp
next
  case (2 fmt_map data prefix e)
  then show ?case using weight_member[of e data] by simp
next
  case (3 fmt_map key v)
  show ?case by simp
next
  case (4 fmt_map key v)
  show ?case by simp
next
  case (5 fmt_map key m)
  show ?case using weight_convertedMap[of m] by simp
qed

declare flattenKVPairs.simps [simp del]

definition collectAllKVPairs :: "(iface \<Rightarrow> string) \<Rightarrow> (string \<times> iface) list list \<Rightarrow> KVPair list" where
  "collectAllKVPairs fmt_map kvMaps = concat (map (\<lambda>kvMap. flattenKVPairs fmt_map kvMap []) kvMaps)"

text \<open>
  What the flattener should emit, stated without the flattener. A value is a mapping when
  the type switch of \<^verbatim>\<open>processValue\<close> sends it to one of its two map cases;
  \<open>mapping_entries\<close> gives the string-keyed entries that are then visited. \<open>leaf data prefix
  path v\<close> holds when \<open>v\<close> is a value that is not a mapping and is reached from \<open>data\<close> by
  going down through mappings only, the keys on the way joined with \<^verbatim>\<open>/\<close> to \<open>path\<close>.
\<close>

fun mapping_entries :: "iface \<Rightarrow> (string \<times> iface) list option" where
  "mapping_entries (VStringMap m) = Some m"
| "mapping_entries (VIfaceMap m) = Some (convertedMap m)"
| "mapping_entries v = None"

definition is_mapping :: "iface \<Rightarrow> bool" where
  "is_mapping v = (mapping_entries v \<noteq> None)"

inductive leaf :: "(string \<times> iface) list \<Rightarrow> string \<Rightarrow> string \<Rightarrow> iface \<Rightarrow> bool" where
  leaf_here: "(k, v) \<in> set data \<Longrightarrow> mapping_entries v = None
      \<Longrightarrow> leaf data prefix (buildKey prefix k) v"
| leaf_below: "(k, v) \<in> set data \<Longrightarrow> mapping_entries v = Some m
      \<Longrightarrow> leaf m (buildKey prefix k) path w \<Longrightarrow> leaf data prefix path w"

code_pred leaf .

section \<open>Errors\<close>

text \<open>The \<^verbatim>\<open>error\<close> values that the modelled functions build with \<^verbatim>\<open>fmt.Errorf\<close>, one
  constructor for each message; a wrapped error (\<^verbatim>\<open>%w\<close>) is an argument.\<close>

datatype error =
    ArityMismatch nat nat
  | DetectFailed error
  | DuplicateKeysDetected
  | LoadFailed string
  | ExportFailed
  | MarshalFailed
  | CreateRequestFailed
  | ExecuteRequestFailed
  | ReadBodyFailed
  | UnmarshalFailed
  | RolledBack nat
  | UnexpectedStatus nat string
  | SyncFailed error
  | BatchesFailed nat nat

section \<open>Duplicate detection (detectDuplicates)\<close>

text \<open>
  \<^verbatim>\<open>keyTracker[pair.Key] = append(keyTracker[pair.Key], FileSource{...})\<close>: a key that the
  map does not hold yet reads as the empty slice. The map \<^verbatim>\<open>keyTracker\<close> is an association
  list in the order in which its keys were first stored.
\<close>

definition appendSource ::
  "(string \<times> FileSource list) list \<Rightarrow> string \<Rightarrow> FileSource \<Rightarrow> (string \<times> FileSource list) list"
where
  "appendSource keyTracker key src =
     AList.update key ((case map_of keyTracker key of None \<Rightarrow> [] | Some sources \<Rightarrow> sources) @ [src])
       keyTracker"

text \<open>The two nested loops that fill \<^verbatim>\<open>keyTracker\<close>; \<open>filenames ! i\<close> is read only after the
  lengths have been compared, hence in range.\<close>

definition collectKeys ::
  "(iface \<Rightarrow> string) \<Rightarrow> (string \<times> iface) list list \<Rightarrow> string list \<Rightarrow> (string \<times> FileSource list) list"
where
  "collectKeys fmt_map kvMaps filenames =
     foldl (\<lambda>keyTracker (i, kvMap).
         foldl (\<lambda>keyTracker pair.
             appendSource keyTracker (Key pair) \<lparr>Filename = filenames ! i, FileValue = Value pair\<rparr>)
           keyTracker (flattenKVPairs fmt_map kvMap []))
       [] (enumerate 0 kvMaps)"

text \<open>
  \<^verbatim>\<open>sort.Slice\<close> with the comparison \<^verbatim>\<open>duplicates[i].Key < duplicates[j].Key\<close> (bytewise,
  shorter prefix first) is \<open>sort_key DupKey\<close>: the keys of a map are distinct, so there is
  one sorted arrangement only, whichever order the map was visited in and whichever
  sorting algorithm runs.
\<close>

definition detectDuplicates ::
  "(iface \<Rightarrow> string) \<Rightarrow> (string \<times> iface) list list \<Rightarrow> string list \<Rightarrow> error + DuplicateInfo list"
where
  "detectDuplicates fmt_map kvMaps filenames =
     (if length kvMaps \<noteq> length filenames
      then Inl (ArityMismatch (length kvMaps) (length filenames))
      else
        let keyTracker = collectKeys fmt_map kvMaps filenames;
            duplicates = map (\<lambda>(key, sources). \<lparr>DupKey = key, Files = sources\<rparr>)
                           (filter (\<lambda>(key, sources). length sources > 1) keyTracker)
        in Inr (sort_key DupKey duplicates))"

text \<open>
  The occurrences of a path, stated without the tracker: source by source in the order of
  the input, and within a source in the order in which the flattener emitted them.
\<close>

definition occurrences ::
  "(iface \<Rightarrow> string) \<Rightarrow> (string \<times> iface) list list \<Rightarrow> string list \<Rightarrow> string \<Rightarrow> FileSource list"
where
  "occurrences fmt_map kvMaps filenames path =
     concat (map (\<lambda>(kvMap, filename).
         map (\<lambda>pair. \<lparr>Filename = filename, FileValue = Value pair\<rparr>)
           (filter (\<lambda>pair. Key pair = path) (flattenKVPairs fmt_map kvMap [])))
       (zip kvMaps filenames))"

text \<open>The number of sources in which a path occurs, as the specification counts.\<close>

definition sources_with ::
  "(iface \<Rightarrow> string) \<Rightarrow> (string \<times> iface) list list \<Rightarrow> string \<Rightarrow> nat"
where
  "sources_with fmt_map kvMaps path =
     length (filter (\<lambda>kvMap. path \<in> Key ` set (flattenKVPairs fmt_map kvMap [])) kvMaps)"

text \<open>What \<^verbatim>\<open>keyTracker[key]\<close> reads: the empty slice for a key that is not stored.\<close>

definition tracked :: "(string \<times> FileSource list) list \<Rightarrow> string \<Rightarrow> FileSource list" where
  "tracked keyTracker key = (case map_of keyTracker key of None \<Rightarrow> [] | Some sources \<Rightarrow> sources)"

section \<open>The sync executor (executeTransaction, syncKVPairs, syncToConsul, run)\<close>

record BatchResult =
  BatchIndex :: nat
  Success :: bool
  Error :: "error option"
  OpErrors :: "TxnError list"
  ProcessedOps :: nat

record ExecutionSummary =
  TotalKeys :: nat
  TotalBatches :: nat
  SuccessBatches :: nat
  FailedBatches :: nat
  Results :: "BatchResult list"

text \<open>
  What lies outside the program. One call of \<^verbatim>\<open>executeTransaction\<close> goes through
  \<^verbatim>\<open>json.Marshal\<close>, \<^verbatim>\<open>http.NewRequest\<close>, \<^verbatim>\<open>httpClient.Do\<close> and \<^verbatim>\<open>io.ReadAll\<close>; a
  \<open>round_trip\<close> says which of them fails, or gives the status code and the body that came
  back. The client is a record of the behaviour of the endpoint it talks to (the fields
  \<^verbatim>\<open>addr\<close> and \<^verbatim>\<open>datacenter\<close> only select that endpoint): the round trip of a transaction,
  which may depend on the transactions sent before, and \<^verbatim>\<open>json.Unmarshal\<close> of a body
  into a \<^verbatim>\<open>TxnResponse\<close>.
\<close>

datatype round_trip =
    MarshalError
  | NewRequestError
  | DoError
  | ReadAllError
  | Response nat string

record ConsulClient =
  httpClient :: "TxnOp list list \<Rightarrow> TxnOp list \<Rightarrow> round_trip"
  jsonUnmarshal :: "string \<Rightarrow> TxnResponse option"

text \<open>What the program prints, one constructor for each message.\<close>

datatype message =
    MsgCheckingDuplicates
  | MsgDuplicateError "DuplicateInfo list"
  | MsgCollected nat
  | MsgDryRun "KVPair list"
  | MsgExport "(string \<times> string) list"
  | MsgSyncingToConsul nat
  | MsgSyncing nat nat
  | MsgProcessingBatch nat nat nat
  | MsgSummary ExecutionSummary

text \<open>The state outside the program that it changes: the transactions handed to the HTTP
  client, oldest first, and the two output streams.\<close>

record world =
  requests :: "TxnOp list list"
  stdout :: "message list"
  stderr :: "message list"

definition println :: "message \<Rightarrow> world \<Rightarrow> world" where
  "println msg w = w\<lparr>stdout := stdout w @ [msg]\<rparr>"

text \<open>
  \<^verbatim>\<open>executeTransaction\<close> returns a response and an error, either of which may be \<^verbatim>\<open>nil\<close>.
  Of the world it touches the remote endpoint only: it takes the transactions sent so far
  and returns them with the new one added. A transaction counts as sent once
  \<^verbatim>\<open>httpClient.Do\<close> is called with it.
\<close>

definition executeTransaction ::
  "ConsulClient \<Rightarrow> TxnOp list \<Rightarrow> TxnOp list list
     \<Rightarrow> (TxnResponse option \<times> error option) \<times> TxnOp list list"
where
  "executeTransaction c ops sent =
     (case httpClient c sent ops of
        MarshalError \<Rightarrow> ((None, Some MarshalFailed), sent)
      | NewRequestError \<Rightarrow> ((None, Some CreateRequestFailed), sent)
      | DoError \<Rightarrow> ((None, Some ExecuteRequestFailed), sent @ [ops])
      | ReadAllError \<Rightarrow> ((None, Some ReadBodyFailed), sent @ [ops])
      | Response statusCode body \<Rightarrow>
          (case jsonUnmarshal c body of
             None \<Rightarrow> ((None, Some UnmarshalFailed), sent @ [ops])
           | Some txnResp \<Rightarrow>
               (if statusCode = 200 then ((Some txnResp, None), sent @ [ops])
                else if statusCode = 409 then
                  ((Some txnResp, Some (RolledBack (length (Errors txnResp)))), sent @ [ops])
                else ((None, Some (UnexpectedStatus statusCode body)), sent @ [ops]))))"

text \<open>
  The loop of \<^verbatim>\<open>syncKVPairs\<close> over the chunks, from index \<open>i\<close> on; \<open>n\<close> is \<^verbatim>\<open>len(chunks)\<close>.
  The pause between two batches (\<^verbatim>\<open>time.Sleep\<close>) changes nothing that is modelled.
\<close>

fun syncBatches ::
  "ConsulClient \<Rightarrow> bool \<Rightarrow> nat \<Rightarrow> nat \<Rightarrow> TxnOp list list \<Rightarrow> ExecutionSummary \<Rightarrow> world
     \<Rightarrow> ExecutionSummary \<times> world"
where
  "syncBatches c verbose n i [] summary w = (summary, w)"
| "syncBatches c verbose n i (chunk # chunks) summary w =
     (let w = (if verbose then println (MsgProcessingBatch (i + 1) n (length chunk)) w else w);
          result = \<lparr>BatchIndex = i, Success = False, Error = None, OpErrors = [],
                    ProcessedOps = length chunk\<rparr>;
          ((txnResp, err), sent) = executeTransaction c chunk (requests w);
          w = w\<lparr>requests := sent\<rparr>;
          (result, summary) =
            (case err of
               Some e \<Rightarrow>
                 (let result = result\<lparr>Success := False, Error := Some e\<rparr>;
                      result = (case txnResp of
                                  Some r \<Rightarrow> result\<lparr>OpErrors := Errors r\<rparr>
                                | None \<Rightarrow> result)
                  in (result, summary\<lparr>FailedBatches := FailedBatches summary + 1\<rparr>))
             | None \<Rightarrow>
                 (result\<lparr>Success := True\<rparr>,
                  summary\<lparr>SuccessBatches := SuccessBatches summary + 1\<rparr>));
          summary = summary\<lparr>Results := Results summary @ [result]\<rparr>
      in syncBatches c verbose n (i + 1) chunks summary w)"

text \<open>
  \<^verbatim>\<open>syncKVPairs\<close> returns a summary pointer and an error. It calls \<^verbatim>\<open>chunkOps\<close>, so it
  returns if that does (\<open>None\<close> is a run that does not return, \<open>Inl\<close> a panic).
\<close>

definition syncKVPairs ::
  "ConsulClient \<Rightarrow> KVPair list \<Rightarrow> bool \<Rightarrow> world
     \<Rightarrow> (go_panic + (ExecutionSummary option \<times> error option) \<times> world) option"
where
  "syncKVPairs c pairs verbose w =
     (let ops = createTransactionOps pairs in
      case chunkOps ops MaxOpsPerTransaction of
        None \<Rightarrow> None
      | Some (Inl p) \<Rightarrow> Some (Inl p)
      | Some (Inr chunks) \<Rightarrow>
          (let summary = \<lparr>TotalKeys = length pairs, TotalBatches = length chunks,
                          SuccessBatches = 0, FailedBatches = 0, Results = []\<rparr>;
               w = (if verbose then println (MsgSyncing (length pairs) (length chunks)) w else w);
               (summary, w) = syncBatches c verbose (length chunks) 0 chunks summary w
           in Some (Inr ((Some summary, None), w))))"

definition syncToConsul ::
  "ConsulClient \<Rightarrow> KVPair list \<Rightarrow> bool \<Rightarrow> world \<Rightarrow> (go_panic + error option \<times> world) option"
where
  "syncToConsul client allPairs verbose w =
     (let w = println (MsgSyncingToConsul (length allPairs)) w in
      case syncKVPairs client allPairs verbose w of
        None \<Rightarrow> None
      | Some (Inl p) \<Rightarrow> Some (Inl p)
      | Some (Inr ((summary, err), w)) \<Rightarrow>
          (let w = (case summary of Some s \<Rightarrow> println (MsgSummary s) w | None \<Rightarrow> w) in
           case (err, summary) of
             (Some e, None) \<Rightarrow> Some (Inr (Some (SyncFailed e), w))
           | (_, Some s) \<Rightarrow>
               (if FailedBatches s > 0
                then Some (Inr (Some (BatchesFailed (FailedBatches s) (TotalBatches s)), w))
                else Some (Inr (None, w)))
           | (None, None) \<Rightarrow> Some (Inr (None, w))))"

definition checkDuplicates ::
  "(iface \<Rightarrow> string) \<Rightarrow> (string \<times> iface) list list \<Rightarrow> string list \<Rightarrow> bool \<Rightarrow> world
     \<Rightarrow> error option \<times> world"
where
  "checkDuplicates fmt_map kvMaps filenames verbose w =
     (let w = (if verbose then println MsgCheckingDuplicates w else w) in
      case detectDuplicates fmt_map kvMaps filenames of
        Inl err \<Rightarrow> (Some (DetectFailed err), w)
      | Inr duplicates \<Rightarrow>
          (if length duplicates > 0
           then (Some DuplicateKeysDetected, w\<lparr>stderr := stderr w @ [MsgDuplicateError duplicates]\<rparr>)
           else (None, w)))"

text \<open>\<^verbatim>\<open>exportToJSON\<close> fails when the encoder cannot write to the standard output.\<close>

definition exportToJSON :: "bool \<Rightarrow> KVPair list \<Rightarrow> world \<Rightarrow> error option \<times> world" where
  "exportToJSON stdout_broken pairs w =
     (let kvData = map (\<lambda>pair. (Key pair, encodeValue (Value pair))) pairs in
      if stdout_broken then (Some ExportFailed, w)
      else (None, println (MsgExport kvData) w))"

text \<open>
  \<^verbatim>\<open>run\<close>, from the point where \<^verbatim>\<open>loadConfigurationAndFiles\<close> has returned: \<open>loaded\<close>
  is what it returned, an error or the maps with their file names.
\<close>

definition run ::
  "(iface \<Rightarrow> string) \<Rightarrow> ConsulClient \<Rightarrow> bool
     \<Rightarrow> error + (string \<times> iface) list list \<times> string list
     \<Rightarrow> bool \<Rightarrow> bool \<Rightarrow> bool \<Rightarrow> world \<Rightarrow> (go_panic + error option \<times> world) option"
where
  "run fmt_map client stdout_broken loaded dryRun export verbose w =
     (case loaded of
        Inl err \<Rightarrow> Some (Inr (Some err, w))
      | Inr (kvMaps, filenames) \<Rightarrow>
          (case checkDuplicates fmt_map kvMaps filenames verbose w of
             (Some err, w) \<Rightarrow> Some (Inr (Some err, w))
           | (None, w) \<Rightarrow>
               (let allPairs = collectAllKVPairs fmt_map kvMaps;
                    w = (if verbose then println (MsgCollected (length allPairs)) w else w)
                in if export then Some (Inr (exportToJSON stdout_broken allPairs w))
                   else if dryRun then Some (Inr (None, println (MsgDryRun allPairs) w))
                   else syncToConsul client allPairs verbose w)))"

text \<open>
  The executor's bookkeeping, stated without the loop: the results of
  \<^verbatim>\<open>executeTransaction\<close> for the chunks in their order, each called with what has been
  sent up to then, and the entry that \<^verbatim>\<open>syncKVPairs\<close> is to record for one of them.
\<close>

fun outcomes ::
  "ConsulClient \<Rightarrow> TxnOp list list \<Rightarrow> TxnOp list list \<Rightarrow> (TxnResponse option \<times> error option) list"
where
  "outcomes c sent [] = []"
| "outcomes c sent (chunk # chunks) =
     fst (executeTransaction c chunk sent)
       # outcomes c (snd (executeTransaction c chunk sent)) chunks"

fun sent_after :: "ConsulClient \<Rightarrow> TxnOp list list \<Rightarrow> TxnOp list list \<Rightarrow> TxnOp list list" where
  "sent_after c sent [] = sent"
| "sent_after c sent (chunk # chunks) = sent_after c (snd (executeTransaction c chunk sent)) chunks"

definition recorded :: "nat \<Rightarrow> TxnOp list \<Rightarrow> TxnResponse option \<times> error option \<Rightarrow> BatchResult" where
  "recorded i chunk out =
     \<lparr>BatchIndex = i, Success = (snd out = None), Error = snd out,
      OpErrors = (case out of (Some r, Some e) \<Rightarrow> Errors r | _ \<Rightarrow> []),
      ProcessedOps = length chunk\<rparr>"

text \<open>The batches that \<^verbatim>\<open>syncKVPairs\<close> plans for a list of pairs, in closed form.\<close>

definition plan :: "KVPair list \<Rightarrow> TxnOp list list" where
  "plan pairs = chunks_of 64 (createTransactionOps pairs)"

text \<open>
  A failure at the transport level, as the specification describes it: the request is not
  built or not sent, the response is not read or not parsed, or it comes with a status
  that is neither 200 nor 409.
\<close>

definition transport_failure :: "ConsulClient \<Rightarrow> TxnOp list list \<Rightarrow> TxnOp list \<Rightarrow> bool" where
  "transport_failure c sent ops =
     (case httpClient c sent ops of
        Response statusCode body \<Rightarrow>
          jsonUnmarshal c body = None \<or> (statusCode \<noteq> 200 \<and> statusCode \<noteq> 409)
      | _ \<Rightarrow> True)"

section \<open>The batch planner: properties\<close>

lemma chunkOps_loop_eq:
  assumes "0 < c" "0 \<le> i"
  shows "chunkOps_loop ops c i acc = Some (Inr (acc @ chunks_of (nat c) (drop (nat i) ops)))"
  using assms
proof (induction "length ops - nat i" arbitrary: i acc rule: less_induct)
  case less
  show ?case
  proof (cases "i < int (length ops)")
    case False
    then have "drop (nat i) ops = []" using less.prems by simp
    then show ?thesis using False
      by (subst chunkOps_loop.simps) (simp add: chunks_of.simps)
  next
    case True
    define e where "e = (if i + c > int (length ops) then int (length ops) else i + c)"
    have e: "i \<le> e" "e \<le> int (length ops)" using True less.prems by (auto simp: e_def)
    have sl: "slice ops i e = Inr (take (nat c) (drop (nat i) ops))"
      using e less.prems True by (auto simp: slice_def e_def min_def intro!: take_all_iff[THEN iffD2] nat_mono)
    have ne: "drop (nat i) ops \<noteq> []" using True less.prems by simp
    have IH: "chunkOps_loop ops c (i + c) (acc @ [take (nat c) (drop (nat i) ops)])
        = Some (Inr ((acc @ [take (nat c) (drop (nat i) ops)]) @ chunks_of (nat c) (drop (nat (i + c)) ops)))"
      using less.prems True by (intro less.hyps) auto
    have dd: "drop (nat (i + c)) ops = drop (nat c) (drop (nat i) ops)"
      using less.prems by (simp add: nat_add_distrib add.commute)
    have "chunkOps_loop ops c i acc = chunkOps_loop ops c (i + c) (acc @ [take (nat c) (drop (nat i) ops)])"
      using True sl by (subst chunkOps_loop.simps) (simp add: Let_def e_def)
    also note IH
    finally show ?thesis using ne less.prems
      by (simp add: dd chunks_of.simps[of "nat c" "drop (nat i) ops"])
  qed
qed

lemma concat_chunks_of: "0 < n \<Longrightarrow> concat (chunks_of n xs) = xs"
proof (induction n xs rule: chunks_of.induct)
  case (1 n xs)
  then show ?case by (subst chunks_of.simps) auto
qed

lemma ceil_step:
  fixes n l :: nat
  assumes "0 < n" "0 < l"
  shows "(l + n - 1) div n = Suc ((l - n + n - 1) div n)"
proof (cases "l \<le> n")
  case True
  have a: "(l + n - 1) div n = 1"
    by (rule div_nat_eqI) (use assms True in auto)
  have b: "(l - n + n - 1) div n = 0" using True assms by simp
  show ?thesis using a b by simp
next
  case False
  have e: "l + n - 1 = (l - 1) + n" "l - n + n - 1 = l - 1" using False assms by auto
  have "((l - 1) + n) div n = Suc ((l - 1) div n)"
    using assms(1) div_add_self2[of n "l - 1"] by simp
  then show ?thesis unfolding e .
qed

lemma length_chunks_of: "0 < n \<Longrightarrow> length (chunks_of n xs) = (length xs + n - 1) div n"
proof (induction n xs rule: chunks_of.induct)
  case (1 n xs)
  show ?case
  proof (cases "xs = []")
    case True
    then show ?thesis using 1(2) by (subst chunks_of.simps) simp
  next
    case False
    have IH: "length (chunks_of n (drop n xs)) = (length xs - n + n - 1) div n"
      using 1 False by simp
    have "length (chunks_of n xs) = Suc (length (chunks_of n (drop n xs)))"
      using False 1(2) by (subst chunks_of.simps) simp
    also have "\<dots> = (length xs + n - 1) div n"
      unfolding IH using ceil_step[of n "length xs"] 1(2) False by simp
    finally show ?thesis .
  qed
qed

lemma chunks_of_le: "c \<in> set (chunks_of n xs) \<Longrightarrow> length c \<le> n \<and> c \<noteq> []"
proof (induction n xs rule: chunks_of.induct)
  case (1 n xs)
  have ne: "\<not> (n = 0 \<or> xs = [])" using 1(2) by (subst (asm) chunks_of.simps) (auto split: if_splits)
  then have "c = take n xs \<or> c \<in> set (chunks_of n (drop n xs))"
    using 1(2) by (subst (asm) chunks_of.simps) auto
  then show ?case
  proof
    assume "c = take n xs"
    then show ?thesis using ne by auto
  next
    assume "c \<in> set (chunks_of n (drop n xs))"
    then show ?thesis using 1(1)[OF ne] by simp
  qed
qed

lemma chunks_of_nth:
  "0 < n \<Longrightarrow> k < length (chunks_of n xs) \<Longrightarrow> chunks_of n xs ! k = take n (drop (k * n) xs)"
proof (induction n xs arbitrary: k rule: chunks_of.induct)
  case (1 n xs)
  show ?case
  proof (cases "xs = []")
    case True
    with 1(3) show ?thesis by (simp add: chunks_of.simps)
  next
    case False
    have eq: "chunks_of n xs = take n xs # chunks_of n (drop n xs)"
      using False 1(2) by (subst chunks_of.simps) simp
    show ?thesis
    proof (cases k)
      case 0
      then show ?thesis by (simp add: eq)
    next
      case (Suc j)
      then have "j < length (chunks_of n (drop n xs))" using 1(3) eq by simp
      then have "chunks_of n (drop n xs) ! j = take n (drop (j * n) (drop n xs))"
        using 1(1)[of j] False 1(2) by simp
      then show ?thesis using Suc by (simp add: eq add.commute)
    qed
  qed
qed

lemma chunkOps_eq:
  "0 < c \<Longrightarrow> chunkOps ops c = Some (Inr (chunks_of (nat c) ops))"
  unfolding chunkOps_def using chunkOps_loop_eq[of c 0 ops "[]"] by simp

lemma chunkOps_loop_some_pos:
  assumes "chunkOps_loop ops c i acc = Some y"
  shows "\<not> (c = 0 \<and> 0 \<le> i \<and> i < int (length ops))"
proof (rule chunkOps_loop.raw_induct
    [where P = "\<lambda>ops c i acc y. \<not> (c = 0 \<and> 0 \<le> i \<and> i < int (length ops))", OF _ assms])
  fix f :: "'a list \<Rightarrow> int \<Rightarrow> int \<Rightarrow> 'a list list \<Rightarrow> (go_panic + 'a list list) option"
  fix ops c i acc y
  assume IH: "\<And>ops c i acc y. f ops c i acc = Some y \<Longrightarrow>
      \<not> (c = 0 \<and> 0 \<le> i \<and> i < int (length ops))"
  assume body: "(if i < int (length ops) then
        (let end' = i + c;
             end' = (if end' > int (length ops) then int (length ops) else end')
         in case slice ops i end' of
              Inl p \<Rightarrow> Some (Inl p)
            | Inr ch \<Rightarrow> f ops c (i + c) (acc @ [ch]))
      else Some (Inr acc)) = Some y"
  show "\<not> (c = 0 \<and> 0 \<le> i \<and> i < int (length ops))"
  proof
    assume a: "c = 0 \<and> 0 \<le> i \<and> i < int (length ops)"
    then have "f ops c (i + c) (acc @ [take (nat (i - i)) (drop (nat i) ops)]) = Some y"
      using body by (simp add: slice_def Let_def)
    from IH[OF this] a show False by simp
  qed
qed

lemma chunkOps_zero_diverges: "ops \<noteq> [] \<Longrightarrow> chunkOps ops 0 = None"
  unfolding chunkOps_def using chunkOps_loop_some_pos[of ops 0 0 "[]"]
  by (cases "chunkOps_loop ops 0 0 []") auto

lemma chunkOps_negative_panics:
  "ops \<noteq> [] \<Longrightarrow> c < 0 \<Longrightarrow> chunkOps ops c = Some (Inl SliceBoundsOutOfRange)"
  unfolding chunkOps_def by (subst chunkOps_loop.simps) (simp add: slice_def Let_def)

lemma last_chunk_len:
  fixes N :: nat
  assumes "0 < N"
  shows "min 64 (N - ((N + 63) div 64 - 1) * 64) = (if N mod 64 = 0 then 64 else N mod 64)"
proof -
  obtain q r where N: "N = q * 64 + r" and r: "r < 64"
    using mod_div_decomp[of N 64] by (metis mod_less_divisor zero_less_numeral)
  have m: "N mod 64 = r" using N r by simp
  show ?thesis
  proof (cases "r = 0")
    case True
    then have q: "0 < q" using assms N by simp
    have "(q * 64 + 63) div 64 = q" by simp
    then show ?thesis unfolding m unfolding N True using q by (simp add: algebra_simps)
  next
    case False
    have "(q * 64 + r + 63) div 64 = q + 1" using False r by simp
    then show ?thesis unfolding m unfolding N using False r by simp
  qed
qed

lemma chunks_of_64_last:
  assumes "chunks_of 64 xs \<noteq> []"
  shows "length (last (chunks_of 64 xs)) =
     (if length xs mod 64 = 0 then 64 else length xs mod 64)"
proof -
  let ?cs = "chunks_of 64 xs"
  have ne: "xs \<noteq> []" using assms by (subst (asm) chunks_of.simps) (simp split: if_splits)
  have len: "length ?cs = (length xs + 63) div 64" using length_chunks_of[of 64 xs] by simp
  have "last ?cs = ?cs ! (length ?cs - 1)" using assms by (rule last_conv_nth)
  also have "\<dots> = take 64 (drop ((length ?cs - 1) * 64) xs)"
    using assms by (intro chunks_of_nth) simp_all
  finally have "length (last ?cs) = min 64 (length xs - ((length xs + 63) div 64 - 1) * 64)"
    by (simp add: len min.commute)
  then show ?thesis using last_chunk_len[of "length xs"] ne by simp
qed

text \<open>
  Claim C2. For every operation sequence of length \<open>N\<close> and the capacity 64 that
  \<^verbatim>\<open>syncKVPairs\<close> passes, \<^verbatim>\<open>chunkOps\<close> returns \<open>\<lceil>N / 64\<rceil>\<close> batches (written
  \<open>(N + 63) div 64\<close>); their concatenation, in order, is the input; no batch holds more than
  64 operations; every batch but the last holds exactly 64; the last holds \<open>N mod 64\<close> when
  that is not zero (and 64 otherwise); and no operations give no batch at all.
\<close>

theorem chunkOps_plan:
  "\<exists>chunks. chunkOps ops MaxOpsPerTransaction = Some (Inr chunks)
     \<and> length chunks = (length ops + 63) div 64
     \<and> concat chunks = ops
     \<and> (\<forall>c \<in> set chunks. length c \<le> 64)
     \<and> (\<forall>k. Suc k < length chunks \<longrightarrow> length (chunks ! k) = 64)
     \<and> (chunks \<noteq> [] \<longrightarrow>
           length (last chunks) = (if length ops mod 64 = 0 then 64 else length ops mod 64))
     \<and> (ops = [] \<longrightarrow> chunks = [])"
proof (intro exI conjI)
  let ?cs = "chunks_of 64 ops"
  show "chunkOps ops MaxOpsPerTransaction = Some (Inr ?cs)"
    using chunkOps_eq[of 64 ops] by (simp add: MaxOpsPerTransaction_def)
  show len: "length ?cs = (length ops + 63) div 64" using length_chunks_of[of 64 ops] by simp
  show "concat ?cs = ops" by (simp add: concat_chunks_of)
  show "\<forall>c \<in> set ?cs. length c \<le> 64" using chunks_of_le by blast
  show "\<forall>k. Suc k < length ?cs \<longrightarrow> length (?cs ! k) = 64"
  proof (intro allI impI)
    fix k assume k: "Suc k < length ?cs"
    then have "Suc k < (length ops + 63) div 64" using len by simp
    then have "Suc k * 64 \<le> length ops" by simp
    then have "64 \<le> length ops - k * 64" by simp
    moreover have "?cs ! k = take 64 (drop (k * 64) ops)"
      using k by (intro chunks_of_nth) simp_all
    ultimately show "length (?cs ! k) = 64" by simp
  qed
  show "?cs \<noteq> [] \<longrightarrow>
      length (last ?cs) = (if length ops mod 64 = 0 then 64 else length ops mod 64)"
    using chunks_of_64_last by blast
  show "ops = [] \<longrightarrow> ?cs = []" by (simp add: chunks_of.simps)
qed

theorem chunkOps_plan_witness:
  "\<exists>chunks. chunkOps [0..<150] MaxOpsPerTransaction = Some (Inr chunks)
     \<and> length chunks = 3 \<and> concat chunks = [0..<150]
     \<and> length (chunks ! 0) = 64 \<and> length (chunks ! 1) = 64 \<and> length (last chunks) = 22"
proof -
  obtain chunks where c: "chunkOps [0..<150] MaxOpsPerTransaction = Some (Inr chunks)"
    "length chunks = (length [0..<150] + 63) div 64" "concat chunks = [0..<150]"
    "\<forall>k. Suc k < length chunks \<longrightarrow> length (chunks ! k) = 64"
    "chunks \<noteq> [] \<longrightarrow> length (last chunks) =
        (if length [0..<150] mod 64 = 0 then 64 else length [0..<150] mod 64)"
    using chunkOps_plan[of "[0..<150]"] by blast
  have l: "length chunks = 3" using c(2) by simp
  then have ne: "chunks \<noteq> []" by auto
  have "length (chunks ! 0) = 64" "length (chunks ! 1) = 64" using c(4) l by simp_all
  moreover have "length (last chunks) = 22" using c(5) ne by simp
  ultimately show ?thesis using c(1,3) l by blast
qed

text \<open>The case of \<^verbatim>\<open>TestChunkOps\<close>: 150 operations make batches of 64, 64 and 22.\<close>

lemma chunkOps_scenario:
  "chunkOps [0..<150] MaxOpsPerTransaction = Some (Inr [[0..<64], [64..<128], [128..<150]])"
  unfolding MaxOpsPerTransaction_def chunkOps_eq[of 64, simplified] by code_simp

text \<open>
  Claim C10. \<^verbatim>\<open>chunkOps\<close> returns for every operation list when the chunk size is positive.
  Positivity is needed: on a list that is not empty a chunk size of 0 never returns (the
  index stays where it is), and a negative one panics in the first slice expression. The
  call in \<^verbatim>\<open>syncKVPairs\<close> passes \<open>MaxOpsPerTransaction = 64\<close> and returns.
\<close>

theorem chunkOps_terminates:
  "(0 < chunkSize \<longrightarrow> (\<exists>chunks. chunkOps ops chunkSize = Some (Inr chunks)))
   \<and> (ops \<noteq> [] \<longrightarrow> chunkOps ops 0 = None)
   \<and> (ops \<noteq> [] \<and> chunkSize < 0 \<longrightarrow>
         chunkOps ops chunkSize = Some (Inl SliceBoundsOutOfRange))
   \<and> (\<exists>chunks. chunkOps ops MaxOpsPerTransaction = Some (Inr chunks))"
  using chunkOps_eq[of chunkSize ops] chunkOps_eq[of 64 ops]
    chunkOps_zero_diverges[of ops] chunkOps_negative_panics[of ops chunkSize]
  by (simp add: MaxOpsPerTransaction_def)

theorem chunkOps_terminates_witness:
  "chunkOps [1, 2, 3 :: nat] 2 = Some (Inr [[1, 2], [3]])
   \<and> chunkOps [1, 2, 3 :: nat] 0 = None
   \<and> chunkOps [1, 2, 3 :: nat] (- 1) = Some (Inl SliceBoundsOutOfRange)"
proof -
  have "chunkOps [1, 2, 3 :: nat] 2 = Some (Inr [[1, 2], [3]])"
    by (simp add: chunkOps_def chunkOps_loop.simps slice_def)
  moreover have "chunkOps [1, 2, 3 :: nat] 0 = None"
    using chunkOps_terminates[of 0 "[1, 2, 3 :: nat]"] by simp
  moreover have "chunkOps [1, 2, 3 :: nat] (- 1) = Some (Inl SliceBoundsOutOfRange)"
    using chunkOps_terminates[of "- 1" "[1, 2, 3 :: nat]"] by simp
  ultimately show ?thesis by simp
qed

section \<open>The batch planner with 64-bit arithmetic\<close>

text \<open>
  With the wrap-around of a 64-bit \<^verbatim>\<open>int\<close> written out the loop does what \<open>chunkOps_loop\<close>
  does, as long as the slice has fewer than \<open>2^62\<close> elements: after the first round the
  index is at least the chunk size, so below the length their sum is below twice the
  length.
\<close>

lemma int64_id: "- (2 ^ 63) \<le> x \<Longrightarrow> x < 2 ^ 63 \<Longrightarrow> int64 x = x"
  by (simp add: int64_def)

lemma chunkOps_loop64_eq:
  assumes "0 < c" and "length ops < 2 ^ 62" and "c < 2 ^ 63" and "i = 0 \<or> c \<le> i" and "i < 2 ^ 63"
  shows "chunkOps_loop64 ops c i acc = Some (Inr (acc @ chunks_of (nat c) (drop (nat i) ops)))"
  using assms(4,5)
proof (induction "length ops - nat i" arbitrary: i acc rule: less_induct)
  case less
  have i0: "0 \<le> i" using less.prems assms(1) by auto
  show ?case
  proof (cases "i < int (length ops)")
    case False
    then have "drop (nat i) ops = []" using i0 by simp
    then show ?thesis using False
      by (subst chunkOps_loop64.simps) (simp add: chunks_of.simps)
  next
    case True
    have len: "int (length ops) < 2 ^ 62" using assms(2) by (metis of_nat_less_numeral_power_cancel_iff)
    have "i + c < 2 ^ 63"
    proof (cases "i = 0")
      case True
      then show ?thesis using assms(3) by simp
    next
      case False
      then have "c \<le> i" using less.prems by simp
      then have "i + c \<le> 2 * i" by simp
      also have "\<dots> < 2 * 2 ^ 62" using \<open>i < int (length ops)\<close> len by simp
      finally show ?thesis by simp
    qed
    then have w: "int64 (i + c) = i + c" using i0 assms(1) by (intro int64_id) simp_all
    define e where "e = (if i + c > int (length ops) then int (length ops) else i + c)"
    have e: "i \<le> e" "e \<le> int (length ops)" using True assms(1) by (auto simp: e_def)
    have sl: "slice ops i e = Inr (take (nat c) (drop (nat i) ops))"
      using e i0 assms(1) True by (auto simp: slice_def e_def min_def intro!: take_all_iff[THEN iffD2] nat_mono)
    have ne: "drop (nat i) ops \<noteq> []" using True i0 by simp
    have IH: "chunkOps_loop64 ops c (i + c) (acc @ [take (nat c) (drop (nat i) ops)])
        = Some (Inr ((acc @ [take (nat c) (drop (nat i) ops)]) @ chunks_of (nat c) (drop (nat (i + c)) ops)))"
      using i0 assms(1) True \<open>i + c < 2 ^ 63\<close> by (intro less.hyps) auto
    have dd: "drop (nat (i + c)) ops = drop (nat c) (drop (nat i) ops)"
      using i0 assms(1) by (simp add: nat_add_distrib add.commute)
    have "chunkOps_loop64 ops c i acc = chunkOps_loop64 ops c (i + c) (acc @ [take (nat c) (drop (nat i) ops)])"
      using True sl by (subst chunkOps_loop64.simps) (simp add: Let_def e_def w)
    also note IH
    finally show ?thesis using ne assms(1)
      by (simp add: dd chunks_of.simps[of "nat c" "drop (nat i) ops"])
  qed
qed

lemma chunkOps_loop64_some_pos:
  assumes "chunkOps_loop64 ops c i acc = Some y"
  shows "\<not> (c = 0 \<and> 0 \<le> i \<and> i < int (length ops) \<and> length ops < 2 ^ 62)"
proof (rule chunkOps_loop64.raw_induct
    [where P = "\<lambda>ops c i acc y. \<not> (c = 0 \<and> 0 \<le> i \<and> i < int (length ops) \<and> length ops < 2 ^ 62)", OF _ assms])
  fix f :: "'a list \<Rightarrow> int \<Rightarrow> int \<Rightarrow> 'a list list \<Rightarrow> (go_panic + 'a list list) option"
  fix ops c i acc y
  assume IH: "\<And>ops c i acc y. f ops c i acc = Some y \<Longrightarrow>
      \<not> (c = 0 \<and> 0 \<le> i \<and> i < int (length ops) \<and> length ops < 2 ^ 62)"
  assume body: "(if i < int (length ops) then
        (let end' = int64 (i + c);
             end' = (if end' > int (length ops) then int (length ops) else end')
         in case slice ops i end' of
              Inl p \<Rightarrow> Some (Inl p)
            | Inr ch \<Rightarrow> f ops c (int64 (i + c)) (acc @ [ch]))
      else Some (Inr acc)) = Some y"
  show "\<not> (c = 0 \<and> 0 \<le> i \<and> i < int (length ops) \<and> length ops < 2 ^ 62)"
  proof
    assume a: "c = 0 \<and> 0 \<le> i \<and> i < int (length ops) \<and> length ops < 2 ^ 62"
    then have "int (length ops) < 2 ^ 62" by (metis of_nat_less_numeral_power_cancel_iff)
    then have w0: "int64 i = i" using a by (intro int64_id) simp_all
    then have w: "int64 (i + c) = i" using a by simp
    have "f ops c i (acc @ [take (nat (i - i)) (drop (nat i) ops)]) = Some y"
      using body a by (simp add: slice_def Let_def w w0)
    from IH[OF this] a show False by simp
  qed
qed

lemma chunkOps64_agrees:
  assumes "- (2 ^ 63) \<le> chunkSize" and "chunkSize < 2 ^ 63" and "length ops < 2 ^ 62"
  shows "chunkOps64 ops chunkSize = chunkOps ops chunkSize"
proof -
  consider "0 < chunkSize" | "chunkSize = 0" | "chunkSize < 0" by linarith
  then show ?thesis
  proof cases
    case 1
    then show ?thesis
      using chunkOps_loop64_eq[of chunkSize ops 0 "[]"] assms chunkOps_eq[of chunkSize ops]
      by (simp add: chunkOps64_def)
  next
    case 2
    show ?thesis
    proof (cases "ops = []")
      case True
      then show ?thesis
        by (simp add: chunkOps64_def chunkOps_def chunkOps_loop64.simps chunkOps_loop.simps)
    next
      case False
      then have "chunkOps_loop64 ops 0 0 [] = None"
        using chunkOps_loop64_some_pos[of ops 0 0 "[]"] assms(3)
        by (cases "chunkOps_loop64 ops 0 0 []") auto
      then show ?thesis using chunkOps_zero_diverges[OF False] 2 by (simp add: chunkOps64_def)
    qed
  next
    case 3
    then have w: "int64 chunkSize = chunkSize" using assms by (intro int64_id) simp_all
    show ?thesis
    proof (cases "ops = []")
      case True
      then show ?thesis
        by (simp add: chunkOps64_def chunkOps_def chunkOps_loop64.simps chunkOps_loop.simps)
    next
      case False
      have "chunkOps64 ops chunkSize = Some (Inl SliceBoundsOutOfRange)"
        unfolding chunkOps64_def using False 3
        by (subst chunkOps_loop64.simps) (simp add: slice_def Let_def w)
      then show ?thesis using chunkOps_negative_panics[OF False 3] by simp
    qed
  qed
qed

lemma chunkOps64_call_site:
  "length ops < 2 ^ 62 \<Longrightarrow> chunkOps64 ops MaxOpsPerTransaction = chunkOps ops MaxOpsPerTransaction"
  by (rule chunkOps64_agrees) (simp_all add: MaxOpsPerTransaction_def)

section \<open>The flattener: properties\<close>

lemma processValue_cases:
  "processValue fm key v =
     (case mapping_entries v of None \<Rightarrow> [\<lparr>Key = key, Value = sprintf_v fm v\<rparr>]
      | Some m \<Rightarrow> flattenKVPairs fm m key)"
  by (cases v) simp_all

lemma flatten_sound_aux:
  "(\<forall>e \<in> set (flattenKVPairs fm data prefix).
       \<exists>v. leaf data prefix (Key e) v \<and> Value e = sprintf_v fm v)"
  "(\<forall>e \<in> set (processValue fm key val).
       case mapping_entries val of
         None \<Rightarrow> e = \<lparr>Key = key, Value = sprintf_v fm val\<rparr>
       | Some m \<Rightarrow> \<exists>v. leaf m key (Key e) v \<and> Value e = sprintf_v fm v)"
  "(\<forall>e \<in> set (processInterfaceMap fm key m).
       \<exists>v. leaf (convertedMap m) key (Key e) v \<and> Value e = sprintf_v fm v)"
proof (induction fm data prefix and fm key val and fm key m
    rule: flattenKVPairs_processValue_processInterfaceMap.induct)
  case (1 fmt_map data prefix)
  show ?case
  proof
    fix e assume "e \<in> set (flattenKVPairs fmt_map data prefix)"
    then obtain x where x: "x \<in> set data"
      and e: "e \<in> set (processValue fmt_map (buildKey prefix (fst x)) (snd x))"
      by (auto simp: flattenKVPairs.simps)
    have mem: "(fst x, snd x) \<in> set data" using x by simp
    show "\<exists>v. leaf data prefix (Key e) v \<and> Value e = sprintf_v fmt_map v"
    proof (cases "mapping_entries (snd x)")
      case None
      then have "e = \<lparr>Key = buildKey prefix (fst x), Value = sprintf_v fmt_map (snd x)\<rparr>"
        using 1[OF x] e by auto
      then show ?thesis using leaf_here[OF mem None, of prefix] by auto
    next
      case (Some m)
      then obtain v where "leaf m (buildKey prefix (fst x)) (Key e) v" "Value e = sprintf_v fmt_map v"
        using 1[OF x] e by auto
      then show ?thesis using leaf_below[OF mem Some] by blast
    qed
  qed
qed (simp_all)

lemma flatten_complete:
  "leaf data prefix path v \<Longrightarrow>
     \<lparr>Key = path, Value = sprintf_v fm v\<rparr> \<in> set (flattenKVPairs fm data prefix)"
proof (induction rule: leaf.induct)
  case (leaf_here k v data prefix)
  then show ?case
    by (force simp: flattenKVPairs.simps processValue_cases)
next
  case (leaf_below k v data m prefix path w)
  then show ?case
    by (force simp: flattenKVPairs.simps[of fm data] processValue_cases)
qed

lemma leaf_not_mapping: "leaf data prefix path v \<Longrightarrow> \<not> is_mapping v"
  by (induction rule: leaf.induct) (simp_all add: is_mapping_def)

text \<open>
  Claim C6, as amended. A value that is a mapping (string-keyed or interface-keyed) is never
  emitted: \<^verbatim>\<open>processValue\<close> recurses into it. Every other value, a scalar, \<^verbatim>\<open>nil\<close> and also a
  sequence, is rendered with \<^verbatim>\<open>%v\<close> and emitted as one entry. The entries of the flattener
  are the renderings of the values that are no mappings and are reached through mappings
  only, under the path of the keys that lead to them.
\<close>

theorem flatten_emits_leaves:
  "processValue fm key (VStringMap sm) = flattenKVPairs fm sm key
   \<and> processValue fm key (VIfaceMap im) = flattenKVPairs fm (convertedMap im) key
   \<and> (\<not> is_mapping v \<longrightarrow> processValue fm key v = [\<lparr>Key = key, Value = sprintf_v fm v\<rparr>])
   \<and> (\<forall>e \<in> set (flattenKVPairs fm data prefix).
         \<exists>w. leaf data prefix (Key e) w \<and> \<not> is_mapping w \<and> Value e = sprintf_v fm w)
   \<and> (\<forall>path w. leaf data prefix path w \<longrightarrow>
         \<lparr>Key = path, Value = sprintf_v fm w\<rparr> \<in> set (flattenKVPairs fm data prefix))"
proof (intro conjI)
  show "\<not> is_mapping v \<longrightarrow> processValue fm key v = [\<lparr>Key = key, Value = sprintf_v fm v\<rparr>]"
    by (simp add: processValue_cases is_mapping_def)
  show "\<forall>e \<in> set (flattenKVPairs fm data prefix).
         \<exists>w. leaf data prefix (Key e) w \<and> \<not> is_mapping w \<and> Value e = sprintf_v fm w"
    using flatten_sound_aux(1)[of fm data prefix] leaf_not_mapping by blast
  show "\<forall>path w. leaf data prefix path w \<longrightarrow>
         \<lparr>Key = path, Value = sprintf_v fm w\<rparr> \<in> set (flattenKVPairs fm data prefix)"
    using flatten_complete by blast
qed simp_all

theorem flatten_emits_leaves_witness:
  "flattenKVPairs (\<lambda>_. []) [(''app'', VStringMap [(''name'', VString ''x'')]),
                           (''tags'', VSlice [VInt 1, VInt 2])] []
     = [\<lparr>Key = ''app/name'', Value = ''x''\<rparr>, \<lparr>Key = ''tags'', Value = ''[1 2]''\<rparr>]
   \<and> leaf [(''app'', VStringMap [(''name'', VString ''x'')]), (''tags'', VSlice [VInt 1, VInt 2])]
         [] ''app/name'' (VString ''x'')
   \<and> \<lparr>Key = ''app/name'', Value = ''x''\<rparr>
       \<in> set (flattenKVPairs (\<lambda>_. []) [(''app'', VStringMap [(''name'', VString ''x'')]),
                                          (''tags'', VSlice [VInt 1, VInt 2])] [])
   \<and> processValue (\<lambda>_. []) ''tags'' (VSlice [VInt 1, VInt 2])
       = [\<lparr>Key = ''tags'', Value = ''[1 2]''\<rparr>]"
proof -
  let ?data = "[(''app'', VStringMap [(''name'', VString ''x'')]), (''tags'', VSlice [VInt 1, VInt 2])]"
  have inner: "leaf [(''name'', VString ''x'')] ''app'' (buildKey ''app'' ''name'') (VString ''x'')"
    by (rule leaf_here) simp_all
  have "leaf ?data [] (buildKey ''app'' ''name'') (VString ''x'')"
    by (rule leaf_below[where k = "''app''" and v = "VStringMap [(''name'', VString ''x'')]"
          and m = "[(''name'', VString ''x'')]"]) (use inner in \<open>simp_all add: buildKey_def\<close>)
  then have l: "leaf ?data [] ''app/name'' (VString ''x'')" by (simp add: buildKey_def)
  have n: "\<not> is_mapping (VSlice [VInt 1, VInt 2])" by (simp add: is_mapping_def)
  have s: "sprintf_v (\<lambda>_. []) (VSlice [VInt 1, VInt 2]) = ''[1 2]''" by code_simp
  have f: "flattenKVPairs (\<lambda>_. []) ?data []
     = [\<lparr>Key = ''app/name'', Value = ''x''\<rparr>, \<lparr>Key = ''tags'', Value = ''[1 2]''\<rparr>]"
    by code_simp
  note t = flatten_emits_leaves[of "\<lambda>_. []" "''tags''" "[]" "[]" "VSlice [VInt 1, VInt 2]" ?data "[]"]
  from t l have "\<lparr>Key = ''app/name'', Value = ''x''\<rparr> \<in> set (flattenKVPairs (\<lambda>_. []) ?data [])"
    by (metis sprintf_v.simps(2))
  moreover from t n s have "processValue (\<lambda>_. []) ''tags'' (VSlice [VInt 1, VInt 2])
       = [\<lparr>Key = ''tags'', Value = ''[1 2]''\<rparr>]"
    by simp
  ultimately show ?thesis using f l by simp
qed

text \<open>
  Claim C6 as stated fails: a YAML sequence is a collection, and the flattener does not
  recurse into it but renders it to text and emits it as the value of one entry.
\<close>

theorem sequence_is_emitted_as_leaf:
  "flattenKVPairs (\<lambda>_. []) [(''tags'', VSlice [VInt 1, VInt 2])] []
     = [\<lparr>Key = ''tags'', Value = ''[1 2]''\<rparr>]"
  by code_simp

lemma occurrences_member:
  assumes "length kvMaps = length filenames" and "i < length kvMaps"
    and "\<lparr>Key = path, Value = s\<rparr> \<in> set (flattenKVPairs fm (kvMaps ! i) [])"
  shows "\<lparr>Filename = filenames ! i, FileValue = s\<rparr> \<in> set (occurrences fm kvMaps filenames path)"
proof -
  let ?g = "\<lambda>(kvMap, filename).
         map (\<lambda>pair. \<lparr>Filename = filename, FileValue = Value pair\<rparr>)
           (filter (\<lambda>pair. Key pair = path) (flattenKVPairs fm kvMap []))"
  have "zip kvMaps filenames ! i = (kvMaps ! i, filenames ! i)" "i < length (zip kvMaps filenames)"
    using assms(1,2) by simp_all
  then have z: "(kvMaps ! i, filenames ! i) \<in> set (zip kvMaps filenames)"
    by (metis nth_mem)
  have "\<lparr>Filename = filenames ! i, FileValue = Value \<lparr>Key = path, Value = s\<rparr>\<rparr>
      \<in> set (?g (kvMaps ! i, filenames ! i))"
    using assms(3) by (simp del: KVPair.simps) (rule imageI, simp)
  then have "\<lparr>Filename = filenames ! i, FileValue = s\<rparr> \<in> set (?g (kvMaps ! i, filenames ! i))"
    by simp
  then have "\<lparr>Filename = filenames ! i, FileValue = s\<rparr> \<in> (\<Union>z \<in> set (zip kvMaps filenames). set (?g z))"
    using z by blast
  then show ?thesis unfolding occurrences_def by simp
qed

text \<open>
  Claim C7. A \<^verbatim>\<open>nil\<close> leaf is rendered as \<^verbatim>\<open><nil>\<close> and emitted under its path, at any
  depth; the entry is among the occurrences that the duplicate detector counts for that
  path, among the pairs that \<^verbatim>\<open>collectAllKVPairs\<close> hands to the sync, and among the
  operations built from them.
\<close>

theorem nil_leaf_emitted:
  "processValue fm key VNil = [\<lparr>Key = key, Value = ''<nil>''\<rparr>]
   \<and> (leaf data prefix path VNil \<longrightarrow>
         \<lparr>Key = path, Value = ''<nil>''\<rparr> \<in> set (flattenKVPairs fm data prefix))
   \<and> (length kvMaps = length filenames \<and> i < length kvMaps \<and> leaf (kvMaps ! i) [] path VNil \<longrightarrow>
         \<lparr>Filename = filenames ! i, FileValue = ''<nil>''\<rparr>
           \<in> set (occurrences fm kvMaps filenames path)
         \<and> \<lparr>Key = path, Value = ''<nil>''\<rparr> \<in> set (collectAllKVPairs fm kvMaps)
         \<and> \<lparr>KV = Some \<lparr>Verb = ''set'', OpKey = path, OpValue = encodeValue ''<nil>'', Flags = 0\<rparr>\<rparr>
           \<in> set (createTransactionOps (collectAllKVPairs fm kvMaps)))"
proof (intro conjI impI)
  show "processValue fm key VNil = [\<lparr>Key = key, Value = ''<nil>''\<rparr>]" by simp
  show "\<lparr>Key = path, Value = ''<nil>''\<rparr> \<in> set (flattenKVPairs fm data prefix)"
    if "leaf data prefix path VNil"
    using flatten_complete[OF that, of fm] by simp
next
  assume a: "length kvMaps = length filenames \<and> i < length kvMaps \<and> leaf (kvMaps ! i) [] path VNil"
  then have m: "\<lparr>Key = path, Value = ''<nil>''\<rparr> \<in> set (flattenKVPairs fm (kvMaps ! i) [])"
    using flatten_complete[of "kvMaps ! i" "[]" path VNil fm] by simp
  show "\<lparr>Filename = filenames ! i, FileValue = ''<nil>''\<rparr>
           \<in> set (occurrences fm kvMaps filenames path)"
    using a m by (intro occurrences_member) simp_all
  show c: "\<lparr>Key = path, Value = ''<nil>''\<rparr> \<in> set (collectAllKVPairs fm kvMaps)"
    using a m unfolding collectAllKVPairs_def by (auto intro!: bexI[of _ "kvMaps ! i"])
  show "\<lparr>KV = Some \<lparr>Verb = ''set'', OpKey = path, OpValue = encodeValue ''<nil>'', Flags = 0\<rparr>\<rparr>
           \<in> set (createTransactionOps (collectAllKVPairs fm kvMaps))"
    using c unfolding createTransactionOps_def by force
qed

theorem nil_leaf_emitted_witness:
  "flattenKVPairs (\<lambda>_. []) [(''null_key'', VNil)] [] = [\<lparr>Key = ''null_key'', Value = ''<nil>''\<rparr>]
   \<and> leaf [(''null_key'', VNil)] [] ''null_key'' VNil
   \<and> \<lparr>Filename = ''f1'', FileValue = ''<nil>''\<rparr>
        \<in> set (occurrences (\<lambda>_. []) [[(''null_key'', VNil)]] [''f1''] ''null_key'')
   \<and> \<lparr>KV = Some \<lparr>Verb = ''set'', OpKey = ''null_key'', OpValue = ''PG5pbD4='', Flags = 0\<rparr>\<rparr>
        \<in> set (createTransactionOps (collectAllKVPairs (\<lambda>_. []) [[(''null_key'', VNil)]]))"
proof -
  have "leaf [(''null_key'', VNil)] [] (buildKey [] ''null_key'') VNil"
    by (rule leaf_here) simp_all
  then have l: "leaf [(''null_key'', VNil)] [] ''null_key'' VNil" by (simp add: buildKey_def)
  have f: "flattenKVPairs (\<lambda>_. []) [(''null_key'', VNil)] [] = [\<lparr>Key = ''null_key'', Value = ''<nil>''\<rparr>]"
    by code_simp
  have e: "encodeValue ''<nil>'' = ''PG5pbD4=''" by code_simp
  note t = nil_leaf_emitted[of "\<lambda>_. []" "[]" "[(''null_key'', VNil)]" "[]" "''null_key''"
      "[[(''null_key'', VNil)]]" "[''f1'']" 0]
  show ?thesis using t l f e by simp
qed

section \<open>The duplicate detector: properties\<close>

lemma tracked_appendSource:
  "tracked (appendSource t k s) k' = (if k' = k then tracked t k @ [s] else tracked t k')"
  by (simp add: tracked_def appendSource_def update_conv')

lemma distinct_appendSource:
  "distinct (map fst t) \<Longrightarrow> distinct (map fst (appendSource t k s))"
  by (simp add: appendSource_def distinct_update)

lemma inner_loop:
  "tracked (foldl (\<lambda>t pair. appendSource t (Key pair) \<lparr>Filename = f, FileValue = Value pair\<rparr>) t pairs) k
     = tracked t k @ map (\<lambda>pair. \<lparr>Filename = f, FileValue = Value pair\<rparr>) (filter (\<lambda>pair. Key pair = k) pairs)"
  by (induction pairs arbitrary: t) (simp_all add: tracked_appendSource)

lemma inner_loop_distinct:
  "distinct (map fst t) \<Longrightarrow>
   distinct (map fst (foldl (\<lambda>t pair. appendSource t (Key pair) \<lparr>Filename = f, FileValue = Value pair\<rparr>) t pairs))"
  by (induction pairs arbitrary: t) (simp_all add: distinct_appendSource)

lemma outer_loop:
  assumes "n + length kvMaps \<le> length filenames"
  shows "tracked (foldl (\<lambda>keyTracker (i, kvMap).
         foldl (\<lambda>keyTracker pair.
             appendSource keyTracker (Key pair) \<lparr>Filename = filenames ! i, FileValue = Value pair\<rparr>)
           keyTracker (flattenKVPairs fm kvMap []))
       t (enumerate n kvMaps)) k
    = tracked t k @ occurrences fm kvMaps (drop n filenames) k"
  using assms
proof (induction kvMaps arbitrary: n t)
  case Nil
  then show ?case by (simp add: occurrences_def)
next
  case (Cons m ms)
  have d: "drop n filenames = filenames ! n # drop (Suc n) filenames"
    using Cons.prems by (simp add: Cons_nth_drop_Suc)
  have "Suc n + length ms \<le> length filenames" using Cons.prems by simp
  note IH = Cons.IH[OF this]
  show ?case
    by (simp add: IH inner_loop d occurrences_def)
qed

lemma outer_loop_distinct:
  "distinct (map fst t) \<Longrightarrow> distinct (map fst (foldl (\<lambda>keyTracker (i, kvMap).
         foldl (\<lambda>keyTracker pair.
             appendSource keyTracker (Key pair) \<lparr>Filename = filenames ! i, FileValue = Value pair\<rparr>)
           keyTracker (flattenKVPairs fm kvMap []))
       t (enumerate n kvMaps)))"
  by (induction kvMaps arbitrary: n t) (simp_all add: inner_loop_distinct)

lemma tracked_collectKeys:
  "length kvMaps = length filenames \<Longrightarrow>
     tracked (collectKeys fm kvMaps filenames) k = occurrences fm kvMaps filenames k"
  unfolding collectKeys_def using outer_loop[of 0 kvMaps filenames fm "[]" k]
  by (simp add: tracked_def)

lemma distinct_collectKeys: "distinct (map fst (collectKeys fm kvMaps filenames))"
  unfolding collectKeys_def by (rule outer_loop_distinct) simp

lemma tracked_member:
  "distinct (map fst t) \<Longrightarrow> (k, l) \<in> set t \<Longrightarrow> tracked t k = l"
  by (simp add: tracked_def)

lemma tracked_nonempty: "tracked t k \<noteq> [] \<Longrightarrow> (k, tracked t k) \<in> set t"
  by (auto simp: tracked_def split: option.splits dest: map_of_SomeD)

text \<open>The list of duplicates before it is sorted.\<close>

lemma duplicates_keys:
  assumes "distinct (map fst t)"
  shows "DupKey ` set (map (\<lambda>(key, sources). \<lparr>DupKey = key, Files = sources\<rparr>)
            (filter (\<lambda>(key, sources). length sources > 1) t)) = {k. 2 \<le> length (tracked t k)}"
proof (intro set_eqI iffI)
  fix k assume "k \<in> DupKey ` set (map (\<lambda>(key, sources). \<lparr>DupKey = key, Files = sources\<rparr>)
            (filter (\<lambda>(key, sources). length sources > 1) t))"
  then obtain l where "(k, l) \<in> set t" "1 < length l" by auto
  then show "k \<in> {k. 2 \<le> length (tracked t k)}" using tracked_member[OF assms] by auto
next
  fix k assume "k \<in> {k. 2 \<le> length (tracked t k)}"
  then have l: "2 \<le> length (tracked t k)" by simp
  then have "tracked t k \<noteq> []" by auto
  then have "(k, tracked t k) \<in> set t" by (rule tracked_nonempty)
  then show "k \<in> DupKey ` set (map (\<lambda>(key, sources). \<lparr>DupKey = key, Files = sources\<rparr>)
            (filter (\<lambda>(key, sources). length sources > 1) t))"
    using l by force
qed

lemma duplicates_files:
  assumes "distinct (map fst t)"
    and "d \<in> set (map (\<lambda>(key, sources). \<lparr>DupKey = key, Files = sources\<rparr>)
            (filter (\<lambda>(key, sources). length sources > 1) t))"
  shows "Files d = tracked t (DupKey d)"
  using assms(2) tracked_member[OF assms(1)] by auto

lemma duplicates_distinct:
  assumes "distinct (map fst t)"
  shows "distinct (map DupKey (map (\<lambda>(key, sources). \<lparr>DupKey = key, Files = sources\<rparr>)
            (filter (\<lambda>(key, sources). length sources > 1) t)))"
proof -
  have eq: "map DupKey (map (\<lambda>(key, sources). \<lparr>DupKey = key, Files = sources\<rparr>)
            (filter (\<lambda>(key, sources). length sources > 1) t))
      = map fst (filter (\<lambda>(key, sources). length sources > 1) t)"
    by (simp add: case_prod_beta)
  show ?thesis unfolding eq by (rule distinct_map_filter) (rule assms)
qed

lemma sort_key_strict:
  assumes "distinct (map f xs)"
  shows "sorted_wrt (<) (map f (sort_key f xs))"
proof -
  have "mset (map f (sort_key f xs)) = mset (map f xs)" by simp
  then have "distinct (map f (sort_key f xs))"
    using assms by (metis mset_eq_imp_distinct_iff)
  then show ?thesis by (simp add: strict_sorted_iff)
qed

lemma detectDuplicates_char:
  assumes "length kvMaps = length filenames"
  shows "\<exists>ds. detectDuplicates fm kvMaps filenames = Inr ds
     \<and> DupKey ` set ds = {path. 2 \<le> length (occurrences fm kvMaps filenames path)}
     \<and> (\<forall>d \<in> set ds. Files d = occurrences fm kvMaps filenames (DupKey d))
     \<and> sorted_wrt (<) (map DupKey ds)"
proof -
  let ?t = "collectKeys fm kvMaps filenames"
  let ?dups = "map (\<lambda>(key, sources). \<lparr>DupKey = key, Files = sources\<rparr>)
            (filter (\<lambda>(key, sources). length sources > 1) ?t)"
  have dt: "distinct (map fst ?t)" by (rule distinct_collectKeys)
  have r: "detectDuplicates fm kvMaps filenames = Inr (sort_key DupKey ?dups)"
    using assms by (simp add: detectDuplicates_def Let_def)
  have "DupKey ` set (sort_key DupKey ?dups) = {k. 2 \<le> length (tracked ?t k)}"
    using duplicates_keys[OF dt] by simp
  then have a: "DupKey ` set (sort_key DupKey ?dups)
      = {path. 2 \<le> length (occurrences fm kvMaps filenames path)}"
    by (simp add: tracked_collectKeys[OF assms])
  have b: "\<forall>d \<in> set (sort_key DupKey ?dups). Files d = occurrences fm kvMaps filenames (DupKey d)"
    using duplicates_files[OF dt] tracked_collectKeys[OF assms] by simp
  have c: "sorted_wrt (<) (map DupKey (sort_key DupKey ?dups))"
    by (rule sort_key_strict) (rule duplicates_distinct[OF dt])
  show ?thesis using r a b c by blast
qed

lemma mset_concat_map: "mset (concat (map g zs)) = (\<Sum>z \<in># mset zs. mset (g z))"
  by (induction zs) auto

lemma mset_occurrences:
  "mset (occurrences fm kvMaps filenames path) =
     (\<Sum>z \<in># mset (zip kvMaps filenames).
        mset (case z of (kvMap, filename) \<Rightarrow> map (\<lambda>pair. \<lparr>Filename = filename, FileValue = Value pair\<rparr>)
           (filter (\<lambda>pair. Key pair = path) (flattenKVPairs fm kvMap []))))"
  unfolding occurrences_def by (rule mset_concat_map)

lemma occurrences_perm:
  assumes "mset (zip kvMaps' filenames') = mset (zip kvMaps filenames)"
  shows "mset (occurrences fm kvMaps' filenames' path) = mset (occurrences fm kvMaps filenames path)"
  unfolding mset_occurrences assms ..

lemma filter_key_distinct:
  "distinct (map f xs) \<Longrightarrow> length (filter (\<lambda>x. f x = k) xs) = (if k \<in> f ` set xs then 1 else 0)"
  by (induction xs) auto

lemma occurrences_sources_with:
  assumes "length kvMaps = length filenames"
    and "\<forall>kvMap \<in> set kvMaps. distinct (map Key (flattenKVPairs fm kvMap []))"
  shows "length (occurrences fm kvMaps filenames path) = sources_with fm kvMaps path"
  using assms
proof (induction kvMaps filenames rule: list_induct2)
  case Nil
  then show ?case by (simp add: occurrences_def sources_with_def)
next
  case (Cons m ms f fs)
  have "length (occurrences fm ms fs path) = sources_with fm ms path"
    using Cons by simp
  moreover have "length (filter (\<lambda>pair. Key pair = path) (flattenKVPairs fm m []))
      = (if path \<in> Key ` set (flattenKVPairs fm m []) then 1 else 0)"
    using Cons.prems by (intro filter_key_distinct) simp
  ultimately show ?case by (simp add: occurrences_def sources_with_def)
qed

text \<open>
  Claim C4, as amended. With as many file names as maps, the detector returns one record
  for every path that has two or more occurrences in the flattened sources taken together,
  and for no other path; the record lists all occurrences of the path, source by source in
  the order of the input; the records are strictly sorted by path. When no source yields a
  path twice these are the paths that occur in two or more sources.
\<close>

theorem detectDuplicates_reports:
  assumes "length kvMaps = length filenames"
  shows "\<exists>ds. detectDuplicates fm kvMaps filenames = Inr ds
     \<and> DupKey ` set ds = {path. 2 \<le> length (occurrences fm kvMaps filenames path)}
     \<and> (\<forall>d \<in> set ds. Files d = occurrences fm kvMaps filenames (DupKey d))
     \<and> sorted_wrt (<) (map DupKey ds)
     \<and> ((\<forall>kvMap \<in> set kvMaps. distinct (map Key (flattenKVPairs fm kvMap [])))
          \<longrightarrow> DupKey ` set ds = {path. 2 \<le> sources_with fm kvMaps path})"
proof -
  obtain ds where ds: "detectDuplicates fm kvMaps filenames = Inr ds"
    "DupKey ` set ds = {path. 2 \<le> length (occurrences fm kvMaps filenames path)}"
    "\<forall>d \<in> set ds. Files d = occurrences fm kvMaps filenames (DupKey d)"
    "sorted_wrt (<) (map DupKey ds)"
    using detectDuplicates_char[OF assms] by blast
  have "DupKey ` set ds = {path. 2 \<le> sources_with fm kvMaps path}"
    if "\<forall>kvMap \<in> set kvMaps. distinct (map Key (flattenKVPairs fm kvMap []))"
    using ds(2) occurrences_sources_with[OF assms that] by simp
  then show ?thesis using ds by blast
qed

theorem detectDuplicates_reports_witness:
  "detectDuplicates (\<lambda>_. []) [[(''a'', VInt 1)], [(''a'', VInt 2)]] [''f1'', ''f2'']
     = Inr [\<lparr>DupKey = ''a'', Files = [\<lparr>Filename = ''f1'', FileValue = ''1''\<rparr>,
                                       \<lparr>Filename = ''f2'', FileValue = ''2''\<rparr>]\<rparr>]
   \<and> {path. 2 \<le> length (occurrences (\<lambda>_. []) [[(''a'', VInt 1)], [(''a'', VInt 2)]]
                                [''f1'', ''f2''] path)} = {''a''}
   \<and> {path. 2 \<le> sources_with (\<lambda>_. []) [[(''a'', VInt 1)], [(''a'', VInt 2)]] path} = {''a''}"
proof -
  let ?K = "[[(''a'', VInt 1)], [(''a'', VInt 2)]]"
  have e: "detectDuplicates (\<lambda>_. []) ?K [''f1'', ''f2'']
     = Inr [\<lparr>DupKey = ''a'', Files = [\<lparr>Filename = ''f1'', FileValue = ''1''\<rparr>,
                                       \<lparr>Filename = ''f2'', FileValue = ''2''\<rparr>]\<rparr>]"
    by code_simp
  have l: "length ?K = length [''f1'', ''f2'']" by simp
  have d: "\<forall>kvMap \<in> set ?K. distinct (map Key (flattenKVPairs (\<lambda>_. []) kvMap []))"
    by (simp add: flattenKVPairs.simps)
  from detectDuplicates_reports[OF l, of "\<lambda>_. []"] e d show ?thesis by auto
qed

text \<open>
  Claim C4 as stated fails. One source in which the key \<^verbatim>\<open>a/b\<close> stands beside the nested
  \<^verbatim>\<open>a: {b: ...}\<close> yields the path \<^verbatim>\<open>a/b\<close> twice; the detector reports it, with both
  occurrences from the same file, although the path occurs in one source only.
\<close>

theorem path_twice_in_one_source:
  "detectDuplicates (\<lambda>_. [])
       [[(''a/b'', VString ''1''), (''a'', VStringMap [(''b'', VString ''2'')])]] [''f1'']
     = Inr [\<lparr>DupKey = ''a/b'', Files = [\<lparr>Filename = ''f1'', FileValue = ''1''\<rparr>,
                                         \<lparr>Filename = ''f1'', FileValue = ''2''\<rparr>]\<rparr>]
   \<and> sources_with (\<lambda>_. [])
       [[(''a/b'', VString ''1''), (''a'', VStringMap [(''b'', VString ''2'')])]] ''a/b'' = 1"
proof
  show "detectDuplicates (\<lambda>_. [])
       [[(''a/b'', VString ''1''), (''a'', VStringMap [(''b'', VString ''2'')])]] [''f1'']
     = Inr [\<lparr>DupKey = ''a/b'', Files = [\<lparr>Filename = ''f1'', FileValue = ''1''\<rparr>,
                                         \<lparr>Filename = ''f1'', FileValue = ''2''\<rparr>]\<rparr>]"
    by code_simp
  show "sources_with (\<lambda>_. [])
       [[(''a/b'', VString ''1''), (''a'', VStringMap [(''b'', VString ''2'')])]] ''a/b'' = 1"
    by code_simp
qed

text \<open>
  Claim C9. Reordering the sources, each map together with its file name, leaves the
  reported paths as they are, record for record; the occurrences of a record are the same
  up to their order.
\<close>

theorem detectDuplicates_source_order:
  assumes "length kvMaps = length filenames" and "length kvMaps' = length filenames'"
    and "mset (zip kvMaps' filenames') = mset (zip kvMaps filenames)"
  shows "\<exists>ds ds'. detectDuplicates fm kvMaps filenames = Inr ds
     \<and> detectDuplicates fm kvMaps' filenames' = Inr ds'
     \<and> map DupKey ds' = map DupKey ds
     \<and> (\<forall>i < length ds. mset (Files (ds' ! i)) = mset (Files (ds ! i)))"
proof -
  obtain ds where ds: "detectDuplicates fm kvMaps filenames = Inr ds"
    "DupKey ` set ds = {path. 2 \<le> length (occurrences fm kvMaps filenames path)}"
    "\<forall>d \<in> set ds. Files d = occurrences fm kvMaps filenames (DupKey d)"
    "sorted_wrt (<) (map DupKey ds)"
    using detectDuplicates_char[OF assms(1)] by blast
  obtain ds' where ds': "detectDuplicates fm kvMaps' filenames' = Inr ds'"
    "DupKey ` set ds' = {path. 2 \<le> length (occurrences fm kvMaps' filenames' path)}"
    "\<forall>d \<in> set ds'. Files d = occurrences fm kvMaps' filenames' (DupKey d)"
    "sorted_wrt (<) (map DupKey ds')"
    using detectDuplicates_char[OF assms(2)] by blast
  have len: "length (occurrences fm kvMaps' filenames' path) = length (occurrences fm kvMaps filenames path)"
    for path using occurrences_perm[OF assms(3), of fm path] by (metis size_mset)
  have "set (map DupKey ds') = set (map DupKey ds)" using ds(2) ds'(2) len by simp
  then have keys: "map DupKey ds' = map DupKey ds"
    using ds(4) ds'(4) by (intro strict_sorted_equal) simp_all
  then have l: "length ds' = length ds" by (metis length_map)
  have "mset (Files (ds' ! i)) = mset (Files (ds ! i))" if i: "i < length ds" for i
  proof -
    have k: "DupKey (ds' ! i) = DupKey (ds ! i)"
      using keys i l by (metis nth_map)
    have "Files (ds' ! i) = occurrences fm kvMaps' filenames' (DupKey (ds' ! i))"
      using ds'(3) i l by simp
    moreover have "Files (ds ! i) = occurrences fm kvMaps filenames (DupKey (ds ! i))"
      using ds(3) i by simp
    ultimately show ?thesis using occurrences_perm[OF assms(3)] k by simp
  qed
  then show ?thesis using ds(1) ds'(1) keys by blast
qed

theorem detectDuplicates_source_order_witness:
  "detectDuplicates (\<lambda>_. []) [[(''a'', VInt 1)], [(''a'', VInt 2)]] [''f1'', ''f2'']
     = Inr [\<lparr>DupKey = ''a'', Files = [\<lparr>Filename = ''f1'', FileValue = ''1''\<rparr>,
                                       \<lparr>Filename = ''f2'', FileValue = ''2''\<rparr>]\<rparr>]
   \<and> detectDuplicates (\<lambda>_. []) [[(''a'', VInt 2)], [(''a'', VInt 1)]] [''f2'', ''f1'']
     = Inr [\<lparr>DupKey = ''a'', Files = [\<lparr>Filename = ''f2'', FileValue = ''2''\<rparr>,
                                       \<lparr>Filename = ''f1'', FileValue = ''1''\<rparr>]\<rparr>]
   \<and> mset [\<lparr>Filename = ''f2'', FileValue = ''2''\<rparr>, \<lparr>Filename = ''f1'', FileValue = ''1''\<rparr>]
     = mset [\<lparr>Filename = ''f1'', FileValue = ''1''\<rparr>, \<lparr>Filename = ''f2'', FileValue = ''2''\<rparr>]"
proof -
  let ?K = "[[(''a'', VInt 1)], [(''a'', VInt 2)]]" and ?K' = "[[(''a'', VInt 2)], [(''a'', VInt 1)]]"
  have e: "detectDuplicates (\<lambda>_. []) ?K [''f1'', ''f2'']
     = Inr [\<lparr>DupKey = ''a'', Files = [\<lparr>Filename = ''f1'', FileValue = ''1''\<rparr>,
                                       \<lparr>Filename = ''f2'', FileValue = ''2''\<rparr>]\<rparr>]"
    by code_simp
  have e': "detectDuplicates (\<lambda>_. []) ?K' [''f2'', ''f1'']
     = Inr [\<lparr>DupKey = ''a'', Files = [\<lparr>Filename = ''f2'', FileValue = ''2''\<rparr>,
                                       \<lparr>Filename = ''f1'', FileValue = ''1''\<rparr>]\<rparr>]"
    by code_simp
  have l: "length ?K = length [''f1'', ''f2'']" and l': "length ?K' = length [''f2'', ''f1'']"
    by simp_all
  have p: "mset (zip ?K' [''f2'', ''f1'']) = mset (zip ?K [''f1'', ''f2''])"
    by (simp add: add_mset_commute)
  from detectDuplicates_source_order[OF l l' p, of "\<lambda>_. []"] e e' show ?thesis by auto
qed

text \<open>
  Two choices of the model that no result depends on. The keys of the tracker are distinct,
  so the sorted list of duplicates is the same for every order in which the tracker is
  visited and for every sorting algorithm: any arrangement of the duplicates that is sorted
  by key is the one that \<^verbatim>\<open>detectDuplicates\<close> returns here.
\<close>

lemma sort_key_unique:
  assumes "mset r = mset xs" and "sorted (map f r)" and "distinct (map f xs)"
  shows "r = sort_key f xs"
proof -
  have "mset (map f r) = mset (map f xs)" using assms(1) by simp
  then have d: "distinct (map f r)" using assms(3) by (metis mset_eq_imp_distinct_iff)
  have s: "set r = set xs" using assms(1) by (rule mset_eq_setD)
  have "mset (map f (sort_key f xs)) = mset (map f xs)" by simp
  then have d': "distinct (map f (sort_key f xs))" using assms(3) by (metis mset_eq_imp_distinct_iff)
  have "map f r = map f (sort_key f xs)"
    using assms(2) d d' s by (intro sorted_distinct_set_unique) simp_all
  moreover have "inj_on f (set r \<union> set (sort_key f xs))"
    using assms(3) s by (simp add: distinct_map)
  ultimately show ?thesis by (rule map_inj_on)
qed

lemma detectDuplicates_any_visit_order:
  assumes "length kvMaps = length filenames"
    and "mset visited = mset (collectKeys fm kvMaps filenames)"
    and "mset sorted_dups = mset (map (\<lambda>(key, sources). \<lparr>DupKey = key, Files = sources\<rparr>)
                           (filter (\<lambda>(key, sources). length sources > 1) visited))"
    and "sorted (map DupKey sorted_dups)"
  shows "detectDuplicates fm kvMaps filenames = Inr sorted_dups"
proof -
  let ?t = "collectKeys fm kvMaps filenames"
  let ?dups = "map (\<lambda>(key, sources). \<lparr>DupKey = key, Files = sources\<rparr>)
                           (filter (\<lambda>(key, sources). length sources > 1) ?t)"
  have "mset sorted_dups = mset ?dups" using assms(2,3) by simp
  moreover have "distinct (map DupKey ?dups)"
    by (rule duplicates_distinct) (rule distinct_collectKeys)
  ultimately have "sorted_dups = sort_key DupKey ?dups"
    using assms(4) by (intro sort_key_unique)
  then show ?thesis using assms(1) by (simp add: detectDuplicates_def Let_def)
qed

text \<open>Visiting the entries of a map in another order permutes what the flattener emits.\<close>

lemma mset_flatten_top:
  "mset data' = mset data \<Longrightarrow>
     mset (flattenKVPairs fm data' prefix) = mset (flattenKVPairs fm data prefix)"
  by (simp add: flattenKVPairs.simps mset_concat_map)

section \<open>The sync executor: properties\<close>

lemma syncBatches_step:
  "syncBatches c verbose n i (chunk # chunks) summary w =
     syncBatches c verbose n (Suc i) chunks
       (summary\<lparr>SuccessBatches := SuccessBatches summary
                    + (if snd (fst (executeTransaction c chunk (requests w))) = None then 1 else 0),
                FailedBatches := FailedBatches summary
                    + (if snd (fst (executeTransaction c chunk (requests w))) = None then 0 else 1),
                Results := Results summary
                    @ [recorded i chunk (fst (executeTransaction c chunk (requests w)))]\<rparr>)
       ((if verbose then println (MsgProcessingBatch (i + 1) n (length chunk)) w else w)
          \<lparr>requests := snd (executeTransaction c chunk (requests w))\<rparr>)"
proof -
  obtain txnResp err sent where e: "executeTransaction c chunk (requests w) = ((txnResp, err), sent)"
    by (metis prod.collapse)
  show ?thesis
    by (cases err; cases txnResp) (simp_all add: e recorded_def println_def Let_def)
qed

lemma length_outcomes: "length (outcomes c sent chunks) = length chunks"
  by (induction chunks arbitrary: sent) simp_all

lemma map_upt_shift: "map f [0..<Suc n] = f 0 # map (\<lambda>j. f (Suc j)) [0..<n]"
  by (simp add: upt_conv_Cons map_Suc_upt[symmetric] del: upt_Suc)

lemma requests_println: "requests (println msg w) = requests w"
  by (simp add: println_def)

lemma syncBatches_results:
  "Results (fst (syncBatches c verbose n i chunks summary w))
     = Results summary @ map (\<lambda>j. recorded (i + j) (chunks ! j) (outcomes c (requests w) chunks ! j))
                          [0..<length chunks]"
proof (induction chunks arbitrary: i summary w)
  case Nil
  show ?case by simp
next
  case (Cons chunk chunks)
  show ?case
    unfolding syncBatches_step
    by (subst Cons.IH) (simp add: map_upt_shift requests_println del: upt_Suc)
qed

lemma syncBatches_counts:
  "SuccessBatches (fst (syncBatches c verbose n i chunks summary w))
     = SuccessBatches summary + length (filter (\<lambda>out. snd out = None) (outcomes c (requests w) chunks))"
  "FailedBatches (fst (syncBatches c verbose n i chunks summary w))
     = FailedBatches summary + length (filter (\<lambda>out. snd out \<noteq> None) (outcomes c (requests w) chunks))"
  "TotalKeys (fst (syncBatches c verbose n i chunks summary w)) = TotalKeys summary"
  "TotalBatches (fst (syncBatches c verbose n i chunks summary w)) = TotalBatches summary"
proof (induction chunks arbitrary: i summary w)
  case Nil
  {
    case 1 show ?case by simp
  next
    case 2 show ?case by simp
  next
    case 3 show ?case by simp
  next
    case 4 show ?case by simp
  }
next
  case (Cons chunk chunks)
  {
    case 1 show ?case unfolding syncBatches_step by (subst Cons.IH(1)) (simp add: requests_println)
  next
    case 2 show ?case unfolding syncBatches_step by (subst Cons.IH(2)) (simp add: requests_println)
  next
    case 3 show ?case unfolding syncBatches_step by (subst Cons.IH(3)) simp
  next
    case 4 show ?case unfolding syncBatches_step by (subst Cons.IH(4)) simp
  }
qed

lemma syncBatches_world:
  "requests (snd (syncBatches c verbose n i chunks summary w)) = sent_after c (requests w) chunks"
  "stderr (snd (syncBatches c verbose n i chunks summary w)) = stderr w"
  "\<not> verbose \<Longrightarrow> stdout (snd (syncBatches c verbose n i chunks summary w)) = stdout w"
proof (induction chunks arbitrary: i summary w)
  case Nil
  {
    case 1 show ?case by simp
  next
    case 2 show ?case by simp
  next
    case 3 show ?case by simp
  }
next
  case (Cons chunk chunks)
  {
    case 1 show ?case unfolding syncBatches_step by (subst Cons.IH(1)) (simp add: requests_println)
  next
    case 2 show ?case unfolding syncBatches_step by (subst Cons.IH(2)) (simp add: println_def)
  next
    case 3 then show ?case unfolding syncBatches_step by (subst Cons.IH(3)) simp_all
  }
qed

lemma syncKVPairs_eq:
  "syncKVPairs c pairs verbose w =
     Some (Inr ((Some (fst (syncBatches c verbose (length (plan pairs)) 0 (plan pairs)
                   \<lparr>TotalKeys = length pairs, TotalBatches = length (plan pairs),
                      SuccessBatches = 0, FailedBatches = 0, Results = []\<rparr>
                   (if verbose then println (MsgSyncing (length pairs) (length (plan pairs))) w else w))),
                 None),
                snd (syncBatches c verbose (length (plan pairs)) 0 (plan pairs)
                   \<lparr>TotalKeys = length pairs, TotalBatches = length (plan pairs),
                      SuccessBatches = 0, FailedBatches = 0, Results = []\<rparr>
                   (if verbose then println (MsgSyncing (length pairs) (length (plan pairs))) w else w))))"
  using chunkOps_eq[of 64 "createTransactionOps pairs"]
  by (simp add: syncKVPairs_def MaxOpsPerTransaction_def plan_def Let_def case_prod_beta)

lemma filter_indexed:
  assumes "\<And>j. j < length outs \<Longrightarrow> P (f j (outs ! j)) = Q (outs ! j)"
  shows "length (filter P (map (\<lambda>j. f j (outs ! j)) [0..<length outs])) = length (filter Q outs)"
  using assms
proof (induction outs rule: rev_induct)
  case Nil
  show ?case by simp
next
  case (snoc x xs)
  have "length (filter P (map (\<lambda>j. f j (xs ! j)) [0..<length xs])) = length (filter Q xs)"
  proof (rule snoc.IH)
    fix j assume "j < length xs"
    then show "P (f j (xs ! j)) = Q (xs ! j)" using snoc.prems[of j] by (simp add: nth_append)
  qed
  moreover have "P (f (length xs) x) = Q x" using snoc.prems[of "length xs"] by simp
  moreover have full: "map (\<lambda>j. f j ((xs @ [x]) ! j)) [0..<length (xs @ [x])]
      = map (\<lambda>j. f j (xs ! j)) [0..<length xs] @ [f (length xs) x]"
    by (simp add: nth_append)
  ultimately show ?case unfolding full by simp
qed

lemma sent_after_all:
  assumes "\<And>sent ops. httpClient c sent ops \<noteq> MarshalError \<and> httpClient c sent ops \<noteq> NewRequestError"
  shows "sent_after c sent chunks = sent @ chunks"
proof (induction chunks arbitrary: sent)
  case Nil
  show ?case by simp
next
  case (Cons chunk chunks)
  have "snd (executeTransaction c chunk sent) = sent @ [chunk]"
    using assms[of sent chunk]
    by (simp add: executeTransaction_def split: round_trip.splits option.splits)
  then show ?case by (simp add: Cons.IH)
qed

lemma plan_chunkOps:
  "chunkOps (createTransactionOps pairs) MaxOpsPerTransaction = Some (Inr (plan pairs))"
  using chunkOps_eq[of 64 "createTransactionOps pairs"]
  by (simp add: MaxOpsPerTransaction_def plan_def)

lemma syncKVPairs_summary:
  assumes "syncKVPairs c pairs verbose w = Some (Inr ((Some s, err), w'))"
  shows "err = None"
    and "Results s = map (\<lambda>j. recorded j (plan pairs ! j) (outcomes c (requests w) (plan pairs) ! j))
                        [0..<length (plan pairs)]"
    and "SuccessBatches s = length (filter (\<lambda>out. snd out = None) (outcomes c (requests w) (plan pairs)))"
    and "FailedBatches s = length (filter (\<lambda>out. snd out \<noteq> None) (outcomes c (requests w) (plan pairs)))"
    and "TotalKeys s = length pairs" and "TotalBatches s = length (plan pairs)"
    and "requests w' = sent_after c (requests w) (plan pairs)"
    and "stderr w' = stderr w"
  using assms unfolding syncKVPairs_eq
  by (auto simp: syncBatches_results syncBatches_counts syncBatches_world requests_println println_def)

lemma syncKVPairs_returns:
  "\<exists>s w'. syncKVPairs c pairs verbose w = Some (Inr ((Some s, None), w'))"
  unfolding syncKVPairs_eq by blast

lemma count_partition: "length (filter P xs) + length (filter (\<lambda>x. \<not> P x) xs) = length xs"
  by (induction xs) auto

text \<open>
  Claim C3. \<^verbatim>\<open>syncKVPairs\<close> returns, and in the summary it returns the succeeded and the
  failed batches add up to the total, which is the number of planned batches; there is one
  result for every batch, the \<open>j\<close>-th for the \<open>j\<close>-th batch, recording what
  \<^verbatim>\<open>executeTransaction\<close> returned for it at its turn; and every batch is counted once, as
  succeeded or as failed according to its result.
\<close>

theorem summary_accounting:
  "\<exists>s w' chunks.
      chunkOps (createTransactionOps pairs) MaxOpsPerTransaction = Some (Inr chunks)
    \<and> syncKVPairs c pairs verbose w = Some (Inr ((Some s, None), w'))
    \<and> SuccessBatches s + FailedBatches s = TotalBatches s
    \<and> TotalBatches s = length chunks
    \<and> length (Results s) = length chunks
    \<and> (\<forall>j < length chunks.
          BatchIndex (Results s ! j) = j \<and> ProcessedOps (Results s ! j) = length (chunks ! j)
          \<and> Results s ! j = recorded j (chunks ! j) (outcomes c (requests w) chunks ! j))
    \<and> SuccessBatches s = length (filter Success (Results s))
    \<and> FailedBatches s = length (filter (\<lambda>r. \<not> Success r) (Results s))"
proof -
  obtain s w' where r: "syncKVPairs c pairs verbose w = Some (Inr ((Some s, None), w'))"
    using syncKVPairs_returns by blast
  note p = syncKVPairs_summary[OF r]
  let ?outs = "outcomes c (requests w) (plan pairs)"
  have lo: "length ?outs = length (plan pairs)" by (rule length_outcomes)
  have res: "Results s = map (\<lambda>j. recorded j (plan pairs ! j) (?outs ! j)) [0..<length ?outs]"
    using p(2) lo by simp
  have a: "SuccessBatches s + FailedBatches s = TotalBatches s"
    using p(3,4,6) count_partition[of "\<lambda>out. snd out = None" ?outs] lo by simp
  have b: "length (Results s) = length (plan pairs)" using p(2) by simp
  have c: "\<forall>j < length (plan pairs).
          BatchIndex (Results s ! j) = j \<and> ProcessedOps (Results s ! j) = length (plan pairs ! j)
          \<and> Results s ! j = recorded j (plan pairs ! j) (?outs ! j)"
    using p(2) by (simp add: recorded_def)
  have d: "length (filter Success (Results s)) = length (filter (\<lambda>out. snd out = None) ?outs)"
    unfolding res by (rule filter_indexed) (simp add: recorded_def)
  have e: "length (filter (\<lambda>r. \<not> Success r) (Results s)) = length (filter (\<lambda>out. snd out \<noteq> None) ?outs)"
    unfolding res by (rule filter_indexed) (simp add: recorded_def)
  show ?thesis
    using plan_chunkOps[of pairs] r a b c d e p(3,4,6)
    by (intro exI[of _ s] exI[of _ w'] exI[of _ "plan pairs"]) (simp add: recorded_def)
qed

lemma length_plan: "length (plan pairs) = (length pairs + 63) div 64"
  using length_chunks_of[of 64 "createTransactionOps pairs"]
  by (simp add: plan_def createTransactionOps_def)

theorem summary_accounting_witness:
  "\<exists>s w'. syncKVPairs \<lparr>httpClient = (\<lambda>sent ops. if sent = [] then DoError else Response 200 []),
                         jsonUnmarshal = (\<lambda>body. Some \<lparr>TxnResults = [], Errors = []\<rparr>)\<rparr>
        (map (\<lambda>i. \<lparr>Key = ''key'' @ digits i, Value = ''v''\<rparr>) [0..<65]) False
        \<lparr>requests = [], stdout = [], stderr = []\<rparr> = Some (Inr ((Some s, None), w'))
    \<and> SuccessBatches s + FailedBatches s = 2 \<and> TotalBatches s = 2 \<and> length (Results s) = 2
    \<and> BatchIndex (Results s ! 0) = 0 \<and> BatchIndex (Results s ! 1) = 1"
proof -
  let ?c = "\<lparr>httpClient = (\<lambda>sent ops. if sent = [] then DoError else Response 200 []),
                         jsonUnmarshal = (\<lambda>body. Some \<lparr>TxnResults = [], Errors = []\<rparr>)\<rparr>"
  let ?pairs = "map (\<lambda>i. \<lparr>Key = ''key'' @ digits i, Value = ''v''\<rparr>) [0..<65]"
  let ?w = "\<lparr>requests = [], stdout = [], stderr = []\<rparr>"
  obtain s w' chunks where
    a: "chunkOps (createTransactionOps ?pairs) MaxOpsPerTransaction = Some (Inr chunks)"
    and b: "syncKVPairs ?c ?pairs False ?w = Some (Inr ((Some s, None), w'))"
    and c: "SuccessBatches s + FailedBatches s = TotalBatches s" "TotalBatches s = length chunks"
      "length (Results s) = length chunks"
    and d: "\<forall>j < length chunks.
          BatchIndex (Results s ! j) = j \<and> ProcessedOps (Results s ! j) = length (chunks ! j)
          \<and> Results s ! j = recorded j (chunks ! j) (outcomes ?c (requests ?w) chunks ! j)"
    using summary_accounting[of ?pairs ?c False ?w] by blast
  have "chunks = plan ?pairs" using a plan_chunkOps[of ?pairs] by simp
  then have l: "length chunks = 2" by (simp add: length_plan)
  have "BatchIndex (Results s ! 0) = 0" "BatchIndex (Results s ! 1) = 1"
    using d l by (simp_all add: recorded_def)
  then show ?thesis using b c l by auto
qed

lemma transport_failure_result:
  "transport_failure c sent ops \<Longrightarrow> \<exists>e. fst (executeTransaction c ops sent) = (None, Some e)"
  by (auto simp: transport_failure_def executeTransaction_def split: round_trip.splits option.splits)

lemma outcomes_nth_failed:
  assumes "j < length chunks" and "fst (outcomes c sent chunks ! j) = None"
    and "snd (outcomes c sent chunks ! j) \<noteq> None"
  shows "\<not> Success (recorded j (chunks ! j) (outcomes c sent chunks ! j))
     \<and> Error (recorded j (chunks ! j) (outcomes c sent chunks ! j)) = snd (outcomes c sent chunks ! j)
     \<and> OpErrors (recorded j (chunks ! j) (outcomes c sent chunks ! j)) = []"
  using assms by (cases "outcomes c sent chunks ! j") (auto simp: recorded_def)

text \<open>
  Claim C1, as amended. A failure at the transport level makes \<^verbatim>\<open>executeTransaction\<close>
  return no response and an error. \<^verbatim>\<open>syncKVPairs\<close> does not stop there: it records the
  batch as failed, with that error and no per-operation errors, counts it among the failed
  batches, goes on with every later batch, and returns the summary with a \<^verbatim>\<open>nil\<close> error.
\<close>

theorem transport_failure_recorded:
  "(transport_failure c sent ops \<longrightarrow> (\<exists>e. fst (executeTransaction c ops sent) = (None, Some e)))
   \<and> (\<exists>s w'. syncKVPairs c pairs verbose w = Some (Inr ((Some s, None), w'))
     \<and> length (Results s) = length (plan pairs)
     \<and> (\<forall>j < length (plan pairs).
          Results s ! j = recorded j (plan pairs ! j) (outcomes c (requests w) (plan pairs) ! j)
          \<and> (fst (outcomes c (requests w) (plan pairs) ! j) = None
               \<and> snd (outcomes c (requests w) (plan pairs) ! j) \<noteq> None \<longrightarrow>
               \<not> Success (Results s ! j)
               \<and> Error (Results s ! j) = snd (outcomes c (requests w) (plan pairs) ! j)
               \<and> OpErrors (Results s ! j) = []))
     \<and> FailedBatches s
         = length (filter (\<lambda>out. snd out \<noteq> None) (outcomes c (requests w) (plan pairs)))
     \<and> requests w' = sent_after c (requests w) (plan pairs)
     \<and> ((\<forall>sent ops. httpClient c sent ops \<noteq> MarshalError \<and> httpClient c sent ops \<noteq> NewRequestError)
          \<longrightarrow> requests w' = requests w @ plan pairs))"
proof (intro conjI impI)
  show "\<exists>e. fst (executeTransaction c ops sent) = (None, Some e)" if "transport_failure c sent ops"
    using that by (rule transport_failure_result)
next
  obtain s w' where r: "syncKVPairs c pairs verbose w = Some (Inr ((Some s, None), w'))"
    using syncKVPairs_returns by blast
  note p = syncKVPairs_summary[OF r]
  let ?outs = "outcomes c (requests w) (plan pairs)"
  have a: "length (Results s) = length (plan pairs)" using p(2) by simp
  have b: "Results s ! j = recorded j (plan pairs ! j) (?outs ! j)" if "j < length (plan pairs)" for j
    using p(2) that by simp
  have c: "\<forall>j < length (plan pairs).
          Results s ! j = recorded j (plan pairs ! j) (?outs ! j)
          \<and> (fst (?outs ! j) = None \<and> snd (?outs ! j) \<noteq> None \<longrightarrow>
               \<not> Success (Results s ! j) \<and> Error (Results s ! j) = snd (?outs ! j)
               \<and> OpErrors (Results s ! j) = [])"
    using b outcomes_nth_failed[of _ "plan pairs" c "requests w"] by simp
  have d: "requests w' = requests w @ plan pairs"
    if "\<forall>sent ops. httpClient c sent ops \<noteq> MarshalError \<and> httpClient c sent ops \<noteq> NewRequestError"
    using p(7) sent_after_all[of c "requests w" "plan pairs"] that by simp
  show "\<exists>s w'. syncKVPairs c pairs verbose w = Some (Inr ((Some s, None), w'))
     \<and> length (Results s) = length (plan pairs)
     \<and> (\<forall>j < length (plan pairs).
          Results s ! j = recorded j (plan pairs ! j) (?outs ! j)
          \<and> (fst (?outs ! j) = None \<and> snd (?outs ! j) \<noteq> None \<longrightarrow>
               \<not> Success (Results s ! j) \<and> Error (Results s ! j) = snd (?outs ! j)
               \<and> OpErrors (Results s ! j) = []))
     \<and> FailedBatches s = length (filter (\<lambda>out. snd out \<noteq> None) ?outs)
     \<and> requests w' = sent_after c (requests w) (plan pairs)
     \<and> ((\<forall>sent ops. httpClient c sent ops \<noteq> MarshalError \<and> httpClient c sent ops \<noteq> NewRequestError)
          \<longrightarrow> requests w' = requests w @ plan pairs)"
    using r a c p(4) p(7) d by blast
qed
theorem transport_failure_recorded_witness:
  "\<exists>s w'. syncKVPairs \<lparr>httpClient = (\<lambda>sent ops. if sent = [] then DoError else Response 200 []),
                         jsonUnmarshal = (\<lambda>body. Some \<lparr>TxnResults = [], Errors = []\<rparr>)\<rparr>
        (map (\<lambda>i. \<lparr>Key = ''key'' @ digits i, Value = ''v''\<rparr>) [0..<65]) False
        \<lparr>requests = [], stdout = [], stderr = []\<rparr> = Some (Inr ((Some s, None), w'))
    \<and> length (Results s) = 2
    \<and> \<not> Success (Results s ! 0) \<and> Error (Results s ! 0) = Some ExecuteRequestFailed
    \<and> OpErrors (Results s ! 0) = []
    \<and> requests w' = plan (map (\<lambda>i. \<lparr>Key = ''key'' @ digits i, Value = ''v''\<rparr>) [0..<65])"
proof -
  let ?c = "\<lparr>httpClient = (\<lambda>sent ops. if sent = [] then DoError else Response 200 []),
                         jsonUnmarshal = (\<lambda>body. Some \<lparr>TxnResults = [], Errors = []\<rparr>)\<rparr>"
  let ?pairs = "map (\<lambda>i. \<lparr>Key = ''key'' @ digits i, Value = ''v''\<rparr>) [0..<65]"
  let ?w = "\<lparr>requests = [], stdout = [], stderr = []\<rparr>"
  let ?outs = "outcomes ?c (requests ?w) (plan ?pairs)"
  have l: "length (plan ?pairs) = 2" by (simp add: length_plan)
  then obtain chunk rest where pl: "plan ?pairs = chunk # rest" by (cases "plan ?pairs") auto
  have o: "?outs ! 0 = (None, Some ExecuteRequestFailed)"
    unfolding pl by (simp add: executeTransaction_def)
  have h: "\<forall>sent ops. httpClient ?c sent ops \<noteq> MarshalError \<and> httpClient ?c sent ops \<noteq> NewRequestError"
    by simp
  obtain s w' where r: "syncKVPairs ?c ?pairs False ?w = Some (Inr ((Some s, None), w'))"
    "length (Results s) = length (plan ?pairs)"
    "\<forall>j < length (plan ?pairs).
          Results s ! j = recorded j (plan ?pairs ! j) (?outs ! j)
          \<and> (fst (?outs ! j) = None \<and> snd (?outs ! j) \<noteq> None \<longrightarrow>
               \<not> Success (Results s ! j) \<and> Error (Results s ! j) = snd (?outs ! j)
               \<and> OpErrors (Results s ! j) = [])"
    "(\<forall>sent ops. httpClient ?c sent ops \<noteq> MarshalError \<and> httpClient ?c sent ops \<noteq> NewRequestError)
          \<longrightarrow> requests w' = requests ?w @ plan ?pairs"
    using transport_failure_recorded[of ?c "[]" "[]" ?pairs False ?w] by blast
  have "0 < length (plan ?pairs)" using l by simp
  with r(3) have "fst (?outs ! 0) = None \<and> snd (?outs ! 0) \<noteq> None \<longrightarrow>
               \<not> Success (Results s ! 0) \<and> Error (Results s ! 0) = snd (?outs ! 0)
               \<and> OpErrors (Results s ! 0) = []"
    by blast
  moreover have "fst (?outs ! 0) = None \<and> snd (?outs ! 0) \<noteq> None" unfolding o by simp
  ultimately have "\<not> Success (Results s ! 0) \<and> Error (Results s ! 0) = snd (?outs ! 0) \<and> OpErrors (Results s ! 0) = []"
    by (rule mp)
  moreover have "requests w' = plan ?pairs" using r(4) h by simp
  ultimately show ?thesis using r(1,2) l o by auto
qed

text \<open>
  Claim C1 as stated fails. 65 pairs make two batches; the HTTP client cannot send the first
  (\<^verbatim>\<open>httpClient.Do\<close> fails) and gets status 200 for the second. \<^verbatim>\<open>syncKVPairs\<close> returns a
  summary and a \<^verbatim>\<open>nil\<close> error: the first batch is counted as failed, the second has been
  sent and has succeeded.
\<close>

theorem transport_failure_does_not_abort:
  "(case syncKVPairs \<lparr>httpClient = (\<lambda>sent ops. if sent = [] then DoError else Response 200 []),
                      jsonUnmarshal = (\<lambda>body. Some \<lparr>TxnResults = [], Errors = []\<rparr>)\<rparr>
        (map (\<lambda>i. \<lparr>Key = ''key'' @ digits i, Value = ''v''\<rparr>) [0..<65]) False
        \<lparr>requests = [], stdout = [], stderr = []\<rparr> of
      Some (Inr ((Some s, err), w')) \<Rightarrow>
        (err, TotalBatches s, SuccessBatches s, FailedBatches s, map Success (Results s),
         map Error (Results s), map length (requests w'))
          = (None, 2, 1, 1, [False, True], [Some ExecuteRequestFailed, None], [64, 1])
    | _ \<Rightarrow> False)"
  by code_simp

lemma syncToConsul_eq:
  assumes "syncKVPairs client allPairs verbose (println (MsgSyncingToConsul (length allPairs)) w)
      = Some (Inr ((Some s, None), w1))"
  shows "syncToConsul client allPairs verbose w =
     Some (Inr (if 0 < FailedBatches s then Some (BatchesFailed (FailedBatches s) (TotalBatches s))
                else None, println (MsgSummary s) w1))"
  using assms by (simp add: syncToConsul_def Let_def)

text \<open>
  Claim C5. \<^verbatim>\<open>syncToConsul\<close> returns an error exactly when the summary that
  \<^verbatim>\<open>syncKVPairs\<close> returned counts a failed batch; the error then names the failed and the
  total batches, at least one batch was attempted, and in every case the summary has been
  printed before \<^verbatim>\<open>syncToConsul\<close> returns.
\<close>

theorem run_failed_iff_batches_failed:
  "\<exists>s e w1 w2.
      syncKVPairs client allPairs verbose (println (MsgSyncingToConsul (length allPairs)) w)
        = Some (Inr ((Some s, None), w1))
    \<and> syncToConsul client allPairs verbose w = Some (Inr (e, w2))
    \<and> (e \<noteq> None) = (0 < FailedBatches s)
    \<and> (0 < FailedBatches s \<longrightarrow>
          e = Some (BatchesFailed (FailedBatches s) (TotalBatches s)) \<and> 0 < TotalBatches s)
    \<and> stdout w2 = stdout w1 @ [MsgSummary s]"
proof -
  let ?w = "println (MsgSyncingToConsul (length allPairs)) w"
  obtain s w1 where r: "syncKVPairs client allPairs verbose ?w = Some (Inr ((Some s, None), w1))"
    using syncKVPairs_returns by blast
  note p = syncKVPairs_summary[OF r]
  let ?outs = "outcomes client (requests ?w) (plan allPairs)"
  have "FailedBatches s \<le> length ?outs" unfolding p(4) by (rule length_filter_le)
  then have t: "FailedBatches s \<le> TotalBatches s" using p(6) by (simp add: length_outcomes)
  show ?thesis
    using r syncToConsul_eq[OF r] t
    by (intro exI[of _ s] exI[of _ w1] exI[of _ "println (MsgSummary s) w1"]
        exI[of _ "if 0 < FailedBatches s then Some (BatchesFailed (FailedBatches s) (TotalBatches s)) else None"])
       (simp add: println_def)
qed

theorem run_failed_iff_batches_failed_witness:
  "\<exists>s w1 w2.
      syncKVPairs \<lparr>httpClient = (\<lambda>sent ops. DoError), jsonUnmarshal = (\<lambda>body. None)\<rparr>
        [\<lparr>Key = ''k'', Value = ''v''\<rparr>] False
        (println (MsgSyncingToConsul 1) \<lparr>requests = [], stdout = [], stderr = []\<rparr>)
        = Some (Inr ((Some s, None), w1))
    \<and> FailedBatches s = 1 \<and> TotalBatches s = 1
    \<and> syncToConsul \<lparr>httpClient = (\<lambda>sent ops. DoError), jsonUnmarshal = (\<lambda>body. None)\<rparr>
        [\<lparr>Key = ''k'', Value = ''v''\<rparr>] False \<lparr>requests = [], stdout = [], stderr = []\<rparr>
        = Some (Inr (Some (BatchesFailed 1 1), w2))
    \<and> stdout w2 = [MsgSyncingToConsul 1, MsgSummary s]"
proof -
  let ?c = "\<lparr>httpClient = (\<lambda>sent ops. DoError), jsonUnmarshal = (\<lambda>body. None)\<rparr>"
  let ?p = "[\<lparr>Key = ''k'', Value = ''v''\<rparr>]"
  let ?w = "\<lparr>requests = [], stdout = [], stderr = []\<rparr>"
  let ?S = "\<lparr>TotalKeys = 1, TotalBatches = 1, SuccessBatches = 0, FailedBatches = 1,
             Results = [\<lparr>BatchIndex = 0, Success = False, Error = Some ExecuteRequestFailed,
                         OpErrors = [], ProcessedOps = 1\<rparr>]\<rparr>"
  let ?W = "\<lparr>requests = [[\<lparr>KV = Some \<lparr>Verb = ''set'', OpKey = ''k'', OpValue = ''dg=='',
                                         Flags = 0\<rparr>\<rparr>]],
             stdout = [MsgSyncingToConsul 1], stderr = []\<rparr>"
  have ev: "syncKVPairs ?c ?p False (println (MsgSyncingToConsul (length ?p)) ?w)
      = Some (Inr ((Some ?S, None), ?W))"
    by code_simp
  obtain s e w1 w2 where
    a: "syncKVPairs ?c ?p False (println (MsgSyncingToConsul (length ?p)) ?w)
        = Some (Inr ((Some s, None), w1))"
    and b: "syncToConsul ?c ?p False ?w = Some (Inr (e, w2))"
    and c: "0 < FailedBatches s \<longrightarrow>
          e = Some (BatchesFailed (FailedBatches s) (TotalBatches s)) \<and> 0 < TotalBatches s"
    and d: "stdout w2 = stdout w1 @ [MsgSummary s]"
    using run_failed_iff_batches_failed[of ?c ?p False ?w]
    by (elim exE conjE) (rule that, assumption+)
  have s: "s = ?S" and w1: "w1 = ?W" using a ev by simp_all
  have "0 < FailedBatches s" by (simp add: s)
  with c have e: "e = Some (BatchesFailed (FailedBatches s) (TotalBatches s))" by blast
  have "syncToConsul ?c ?p False ?w = Some (Inr (Some (BatchesFailed 1 1), w2))"
    using b e by (simp add: s)
  moreover have "stdout w2 = [MsgSyncingToConsul 1, MsgSummary s]" using d by (simp add: w1)
  moreover have "syncKVPairs ?c ?p False (println (MsgSyncingToConsul 1) ?w) = Some (Inr ((Some s, None), w1))"
    using a by simp
  moreover have "FailedBatches s = 1" "TotalBatches s = 1" by (simp_all add: s)
  ultimately show ?thesis by blast
qed

lemma run_mismatch:
  assumes "length kvMaps \<noteq> length filenames"
  shows "run fm client broken (Inr (kvMaps, filenames)) dryRun export verbose w
     = Some (Inr (Some (DetectFailed (ArityMismatch (length kvMaps) (length filenames))),
                  if verbose then println MsgCheckingDuplicates w else w))"
  using assms by (simp add: run_def checkDuplicates_def detectDuplicates_def Let_def)

lemma run_duplicates:
  assumes "detectDuplicates fm kvMaps filenames = Inr ds" and "ds \<noteq> []"
  shows "run fm client broken (Inr (kvMaps, filenames)) dryRun export verbose w
     = Some (Inr (Some DuplicateKeysDetected,
                  (if verbose then println MsgCheckingDuplicates w else w)
                    \<lparr>stderr := stderr (if verbose then println MsgCheckingDuplicates w else w)
                                 @ [MsgDuplicateError ds]\<rparr>))"
  using assms by (simp add: run_def checkDuplicates_def Let_def)

text \<open>
  Claim C8. With a number of file names that differs from the number of maps
  \<^verbatim>\<open>detectDuplicates\<close> fails with the arity mismatch, and \<^verbatim>\<open>run\<close> returns that error
  (wrapped) with no transaction sent; the same holds when duplicates are found.
\<close>

theorem arity_mismatch_before_any_request:
  "(length kvMaps \<noteq> length filenames \<longrightarrow>
      detectDuplicates fm kvMaps filenames
        = Inl (ArityMismatch (length kvMaps) (length filenames))
      \<and> (\<exists>w'. run fm client broken (Inr (kvMaps, filenames)) dryRun export verbose w
            = Some (Inr (Some (DetectFailed (ArityMismatch (length kvMaps) (length filenames))), w'))
          \<and> requests w' = requests w))
   \<and> (detectDuplicates fm kvMaps filenames = Inr ds \<and> ds \<noteq> [] \<longrightarrow>
      (\<exists>w'. run fm client broken (Inr (kvMaps, filenames)) dryRun export verbose w
            = Some (Inr (Some DuplicateKeysDetected, w'))
          \<and> requests w' = requests w))"
proof (intro conjI impI)
  assume a: "length kvMaps \<noteq> length filenames"
  then show "detectDuplicates fm kvMaps filenames
        = Inl (ArityMismatch (length kvMaps) (length filenames))"
    by (simp add: detectDuplicates_def)
  show "\<exists>w'. run fm client broken (Inr (kvMaps, filenames)) dryRun export verbose w
            = Some (Inr (Some (DetectFailed (ArityMismatch (length kvMaps) (length filenames))), w'))
          \<and> requests w' = requests w"
    unfolding run_mismatch[OF a] by (simp add: requests_println)
next
  assume "detectDuplicates fm kvMaps filenames = Inr ds \<and> ds \<noteq> []"
  then have d: "detectDuplicates fm kvMaps filenames = Inr ds" "ds \<noteq> []" by simp_all
  show "\<exists>w'. run fm client broken (Inr (kvMaps, filenames)) dryRun export verbose w
            = Some (Inr (Some DuplicateKeysDetected, w'))
          \<and> requests w' = requests w"
    unfolding run_duplicates[OF d] by (simp add: requests_println)
qed

theorem arity_mismatch_before_any_request_witness:
  "detectDuplicates (\<lambda>_. []) [[(''key'', VString ''value'')]] [''file1.yaml'', ''file2.yaml'']
     = Inl (ArityMismatch 1 2)
   \<and> (\<exists>w'. run (\<lambda>_. []) \<lparr>httpClient = (\<lambda>sent ops. Response 200 []), jsonUnmarshal = (\<lambda>body. None)\<rparr>
           False (Inr ([[(''key'', VString ''value'')]], [''file1.yaml'', ''file2.yaml'']))
           False False False \<lparr>requests = [], stdout = [], stderr = []\<rparr>
         = Some (Inr (Some (DetectFailed (ArityMismatch 1 2)), w')) \<and> requests w' = [])
   \<and> (\<exists>w'. run (\<lambda>_. []) \<lparr>httpClient = (\<lambda>sent ops. Response 200 []), jsonUnmarshal = (\<lambda>body. None)\<rparr>
           False (Inr ([[(''a'', VInt 1)], [(''a'', VInt 2)]], [''f1'', ''f2'']))
           False False False \<lparr>requests = [], stdout = [], stderr = []\<rparr>
         = Some (Inr (Some DuplicateKeysDetected, w')) \<and> requests w' = [])"
proof -
  let ?c = "\<lparr>httpClient = (\<lambda>sent ops. Response 200 []), jsonUnmarshal = (\<lambda>body. None)\<rparr>"
  let ?w = "\<lparr>requests = [], stdout = [], stderr = []\<rparr>"
  let ?K = "[[(''key'', VString ''value'')]]" and ?N = "[''file1.yaml'', ''file2.yaml'']"
  let ?K2 = "[[(''a'', VInt 1)], [(''a'', VInt 2)]]" and ?N2 = "[''f1'', ''f2'']"
  let ?D = "[\<lparr>DupKey = ''a'', Files = [\<lparr>Filename = ''f1'', FileValue = ''1''\<rparr>,
                                       \<lparr>Filename = ''f2'', FileValue = ''2''\<rparr>]\<rparr>]"
  have m: "length ?K \<noteq> length ?N" by simp
  have d: "detectDuplicates (\<lambda>_. []) ?K2 ?N2 = Inr ?D \<and> ?D \<noteq> []" by code_simp
  have lk: "length ?K = 1" "length ?N = 2" by simp_all
  have rq: "requests ?w = []" by simp
  have "detectDuplicates (\<lambda>_. []) ?K ?N = Inl (ArityMismatch (length ?K) (length ?N))
      \<and> (\<exists>w'. run (\<lambda>_. []) ?c False (Inr (?K, ?N)) False False False ?w
            = Some (Inr (Some (DetectFailed (ArityMismatch (length ?K) (length ?N))), w'))
          \<and> requests w' = requests ?w)"
    using arity_mismatch_before_any_request[where kvMaps = ?K and filenames = ?N
        and fm = "\<lambda>_. []" and client = ?c and broken = False and dryRun = False
        and export = False and verbose = False and w = ?w] m
    by blast
  then have f1: "detectDuplicates (\<lambda>_. []) ?K ?N = Inl (ArityMismatch 1 2)
      \<and> (\<exists>w'. run (\<lambda>_. []) ?c False (Inr (?K, ?N)) False False False ?w
            = Some (Inr (Some (DetectFailed (ArityMismatch 1 2)), w'))
          \<and> requests w' = [])"
    unfolding lk rq .
  have "\<exists>w'. run (\<lambda>_. []) ?c False (Inr (?K2, ?N2)) False False False ?w
            = Some (Inr (Some DuplicateKeysDetected, w')) \<and> requests w' = requests ?w"
    using arity_mismatch_before_any_request[where kvMaps = ?K2 and filenames = ?N2
        and fm = "\<lambda>_. []" and ds = ?D and client = ?c and broken = False and dryRun = False
        and export = False and verbose = False and w = ?w] d
    by blast
  then have f2: "\<exists>w'. run (\<lambda>_. []) ?c False (Inr (?K2, ?N2)) False False False ?w
            = Some (Inr (Some DuplicateKeysDetected, w')) \<and> requests w' = []"
    unfolding rq .
  note a1 = conjunct1[OF f1] and a2 = conjunct2[OF f1]
  from a1 a2 f2 show ?thesis by (rule conjI[OF _ conjI])
qed

text \<open>Without duplicates, and neither exporting nor in a dry run, \<^verbatim>\<open>run\<close> returns what
  \<^verbatim>\<open>syncToConsul\<close> returns for the collected pairs.\<close>

lemma run_reaches_sync:
  assumes "detectDuplicates fm kvMaps filenames = Inr []"
  shows "run fm client broken (Inr (kvMaps, filenames)) False False False w
     = syncToConsul client (collectAllKVPairs fm kvMaps) False w"
  using assms by (simp add: run_def checkDuplicates_def Let_def)

end
